theory Spec2Isabelle
  imports Complex_Main "HOL-Library.Multiset"
begin

section \<open>JavaScript arrays of numbers\<close>

text \<open>
  The module \<^verbatim>\<open>src/utils/QuickSort.js\<close> sorts JavaScript arrays in place. An array read
  yields a number or \<^verbatim>\<open>undefined\<close>; we write a value as \<open>'a option\<close> with \<open>None\<close> for
  \<^verbatim>\<open>undefined\<close> (a hole of the array reads as \<^verbatim>\<open>undefined\<close> too). Numbers are the
  elements of a linear order \<open>'a\<close>; the floating-point values \<^verbatim>\<open>NaN\<close> and \<^verbatim>\<open>-0\<close> are not
  modelled. Indices are JavaScript numbers holding integers, so they are \<open>int\<close>: the
  code computes \<^verbatim>\<open>low - 1\<close> and \<^verbatim>\<open>arr.length - 1\<close>, which may be \<open>-1\<close>.

  An array object has its indexed elements, which determine \<^verbatim>\<open>length\<close>, and it may
  carry further properties: an assignment \<^verbatim>\<open>arr[i] = v\<close> with \<open>i\<close> negative (or beyond
  the largest array index \<open>2^32 - 2\<close>) creates an ordinary property that later reads of
  \<^verbatim>\<open>arr[i]\<close> see, and an assignment at an index at or beyond \<^verbatim>\<open>length\<close> extends the array,
  leaving holes in between.
\<close>

record 'a jsarray =
  elems :: "'a option list"
  props :: "(int \<times> 'a option) list"

definition len :: "'a jsarray \<Rightarrow> int" where
  "len arr = int (length (elems arr))"

definition get :: "'a jsarray \<Rightarrow> int \<Rightarrow> 'a option" where
  "get arr i =
     (if 0 \<le> i \<and> i < len arr then elems arr ! nat i
      else (case map_of (props arr) i of Some v \<Rightarrow> v | None \<Rightarrow> None))"

definition put :: "'a jsarray \<Rightarrow> int \<Rightarrow> 'a option \<Rightarrow> 'a jsarray" where
  "put arr i v =
     (if 0 \<le> i \<and> i < len arr then arr\<lparr>elems := (elems arr)[nat i := v]\<rparr>
      else if len arr \<le> i \<and> i < 4294967295
        then arr\<lparr>elems := elems arr @ replicate (nat (i - len arr)) None @ [v]\<rparr>
      else arr\<lparr>props := (i, v) # props arr\<rparr>)"

text \<open>
  The relational operators convert \<^verbatim>\<open>undefined\<close> to \<^verbatim>\<open>NaN\<close>, and every comparison with
  \<^verbatim>\<open>NaN\<close> is false.
\<close>

fun js_lt :: "'a::linorder option \<Rightarrow> 'a option \<Rightarrow> bool" where
  "js_lt (Some a) (Some b) = (a < b)"
| "js_lt _ _ = False"

fun js_le :: "'a::linorder option \<Rightarrow> 'a option \<Rightarrow> bool" where
  "js_le (Some a) (Some b) = (a \<le> b)"
| "js_le _ _ = False"

definition js_gt :: "'a::linorder option \<Rightarrow> 'a option \<Rightarrow> bool" where
  "js_gt a b = js_lt b a"

text \<open>
  \<^verbatim>\<open>function swap(arr, i, j) { [arr[i], arr[j]] = [arr[j], arr[i]]; }\<close>
  The right-hand side is evaluated first (it reads \<^verbatim>\<open>arr[j]\<close>, then \<^verbatim>\<open>arr[i]\<close>), then
  \<^verbatim>\<open>arr[i]\<close> and \<^verbatim>\<open>arr[j]\<close> are assigned in this order.
\<close>

definition swap :: "'a jsarray \<Rightarrow> int \<Rightarrow> int \<Rightarrow> 'a jsarray" where
  "swap arr i j = (let x = get arr j; y = get arr i in put (put arr i x) j y)"

section \<open>Lomuto partition and the recursive sort\<close>

text \<open>
  The \<^verbatim>\<open>for\<close> loop of \<^verbatim>\<open>partition\<close>, with the loop variables \<open>i\<close> and \<open>j\<close>:
  \<^verbatim>\<open>for (let j = low; j < high; j++) { if (arr[j] <= pivot) { i++; swap(arr, i, j); } }\<close>
\<close>

function partition_loop ::
  "'a::linorder jsarray \<Rightarrow> 'a option \<Rightarrow> int \<Rightarrow> int \<Rightarrow> int \<Rightarrow> 'a jsarray \<times> int" where
  "partition_loop arr pivot high i j =
     (if j < high
      then (if js_le (get arr j) pivot
            then partition_loop (swap arr (i + 1) j) pivot high (i + 1) (j + 1)
            else partition_loop arr pivot high i (j + 1))
      else (arr, i))"
  by pat_completeness auto

lemma partition_loop_total: "All partition_loop_dom"
  by (relation "measure (\<lambda>(arr, pivot, high, i, j). nat (high - j))") auto

termination partition_loop
  by (rule partition_loop_total)

declare partition_loop.simps [simp del]

definition partition :: "'a::linorder jsarray \<Rightarrow> int \<Rightarrow> int \<Rightarrow> 'a jsarray \<times> int" where
  "partition arr low high =
     (let pivot = get arr high;
          (arr1, i) = partition_loop arr pivot high (low - 1) low
      in (swap arr1 (i + 1) high, i + 1))"

lemma partition_loop_stop:
  "\<not> j < high \<Longrightarrow> partition_loop arr pivot high i j = (arr, i)"
  by (subst partition_loop.simps) simp

lemma partition_loop_take:
  "j < high \<Longrightarrow> js_le (get arr j) pivot \<Longrightarrow>
   partition_loop arr pivot high i j =
     partition_loop (swap arr (i + 1) j) pivot high (i + 1) (j + 1)"
  by (subst partition_loop.simps) simp

lemma partition_loop_skip:
  "j < high \<Longrightarrow> \<not> js_le (get arr j) pivot \<Longrightarrow>
   partition_loop arr pivot high i j = partition_loop arr pivot high i (j + 1)"
  by (subst partition_loop.simps) simp

lemma partition_loop_index:
  "j \<le> high \<Longrightarrow> i \<le> snd (partition_loop arr pivot high i j)
     \<and> snd (partition_loop arr pivot high i j) \<le> i + (high - j)"
proof (induction arr pivot high i j rule: partition_loop.induct)
  case (1 arr pivot high i j)
  then show ?case
    by (cases "j < high"; cases "js_le (get arr j) pivot")
       (auto simp add: partition_loop_stop partition_loop_take partition_loop_skip)
qed

lemma partition_index:
  assumes "low \<le> high"
  shows "low \<le> snd (partition arr low high) \<and> snd (partition arr low high) \<le> high"
  using partition_loop_index [OF assms, of "low - 1" arr "get arr high"]
  by (simp add: partition_def split_beta Let_def)

function quickSort :: "'a::linorder jsarray \<Rightarrow> int \<Rightarrow> int \<Rightarrow> 'a jsarray" where
  "quickSort arr low high =
     (if low < high
      then (let (arr1, pivotIndex) = partition arr low high;
                arr2 = quickSort arr1 low (pivotIndex - 1)
            in quickSort arr2 (pivotIndex + 1) high)
      else arr)"
  by pat_completeness auto

lemma quickSort_total: "All quickSort_dom"
proof (relation "measure (\<lambda>(arr, low, high). nat (high - low))", goal_cases)
  case 1
  show ?case by simp
next
  case (2 arr low high x arr1 pivotIndex)
  then show ?case
    using partition_index [of low high arr] by (simp add: prod_eq_iff)
next
  case (3 arr low high x arr1 pivotIndex arr2)
  then show ?case
    using partition_index [of low high arr] by (simp add: prod_eq_iff)
qed

termination quickSort
  by (rule quickSort_total)

declare quickSort.simps [simp del]

section \<open>Hoare partition\<close>

text \<open>
  Only finitely many properties of an array object are defined: no read at or above
  \<open>top_index arr\<close>, and none below \<open>bot_index arr\<close>, yields a number. The two scans of
  \<^verbatim>\<open>hoarePartition\<close> stop there at the latest, whatever the bounds they are started with.
\<close>

definition top_index :: "'a jsarray \<Rightarrow> int" where
  "top_index arr = Max (insert (len arr) ((\<lambda>k. k + 1) ` fst ` set (props arr)))"

definition bot_index :: "'a jsarray \<Rightarrow> int" where
  "bot_index arr = Min (insert 0 (fst ` set (props arr)))"

lemma get_defined_below_top:
  assumes "get arr i \<noteq> None"
  shows "i < top_index arr"
proof (cases "0 \<le> i \<and> i < len arr")
  case True
  have "len arr \<le> top_index arr"
    unfolding top_index_def by (rule Max_ge) simp_all
  with True show ?thesis by simp
next
  case False
  with assms obtain v where "map_of (props arr) i = Some v"
    by (auto simp add: get_def split: option.splits)
  then have "i \<in> fst ` set (props arr)"
    by (metis map_of_eq_None_iff option.distinct(1))
  then have "i + 1 \<le> top_index arr"
    unfolding top_index_def by (intro Max_ge) simp_all
  then show ?thesis by simp
qed

lemma get_defined_above_bot:
  assumes "get arr i \<noteq> None"
  shows "bot_index arr \<le> i"
proof (cases "0 \<le> i \<and> i < len arr")
  case True
  have "bot_index arr \<le> 0"
    unfolding bot_index_def by (rule Min_le) simp_all
  with True show ?thesis by simp
next
  case False
  with assms obtain v where "map_of (props arr) i = Some v"
    by (auto simp add: get_def split: option.splits)
  then have "i \<in> fst ` set (props arr)"
    by (metis map_of_eq_None_iff option.distinct(1))
  then show ?thesis
    unfolding bot_index_def by (intro Min_le) simp_all
qed

lemma js_lt_defined: "js_lt a b \<Longrightarrow> a \<noteq> None \<and> b \<noteq> None"
  by (cases a; cases b) simp_all

text \<open>\<^verbatim>\<open>do { i++; } while (arr[i] < pivot);\<close> returning the final \<open>i\<close>.\<close>

function hoare_scan_i :: "'a::linorder jsarray \<Rightarrow> 'a option \<Rightarrow> int \<Rightarrow> int" where
  "hoare_scan_i arr pivot i =
     (let i1 = i + 1
      in if js_lt (get arr i1) pivot then hoare_scan_i arr pivot i1 else i1)"
  by pat_completeness auto

lemma hoare_scan_i_total: "All hoare_scan_i_dom"
proof (relation "measure (\<lambda>(arr, pivot, i). nat (top_index arr - i))", goal_cases)
  case 1
  show ?case by simp
next
  case (2 arr pivot i i1)
  then have "get arr (i + 1) \<noteq> None"
    using js_lt_defined [of "get arr (i + 1)" pivot] by simp
  then have "i + 1 < top_index arr"
    by (rule get_defined_below_top)
  with 2 show ?case by simp
qed

termination hoare_scan_i
  by (rule hoare_scan_i_total)

text \<open>\<^verbatim>\<open>do { j--; } while (arr[j] > pivot);\<close> returning the final \<open>j\<close>.\<close>

function hoare_scan_j :: "'a::linorder jsarray \<Rightarrow> 'a option \<Rightarrow> int \<Rightarrow> int" where
  "hoare_scan_j arr pivot j =
     (let j1 = j - 1
      in if js_gt (get arr j1) pivot then hoare_scan_j arr pivot j1 else j1)"
  by pat_completeness auto

lemma hoare_scan_j_total: "All hoare_scan_j_dom"
proof (relation "measure (\<lambda>(arr, pivot, j). nat (j - bot_index arr))", goal_cases)
  case 1
  show ?case by simp
next
  case (2 arr pivot j j1)
  then have "get arr (j - 1) \<noteq> None"
    using js_lt_defined [of pivot "get arr (j - 1)"] by (simp add: js_gt_def)
  then have "bot_index arr \<le> j - 1"
    by (rule get_defined_above_bot)
  with 2 show ?case by simp
qed

termination hoare_scan_j
  by (rule hoare_scan_j_total)

declare hoare_scan_i.simps [simp del] hoare_scan_j.simps [simp del]

lemma hoare_scan_i_greater: "i < hoare_scan_i arr pivot i"
proof (induction arr pivot i rule: hoare_scan_i.induct)
  case (1 arr pivot i)
  show ?case
  proof (cases "js_lt (get arr (i + 1)) pivot")
    case True
    with 1 show ?thesis by (subst hoare_scan_i.simps) (simp add: Let_def)
  next
    case False
    then show ?thesis by (subst hoare_scan_i.simps) (simp add: Let_def)
  qed
qed

lemma hoare_scan_j_less: "hoare_scan_j arr pivot j < j"
proof (induction arr pivot j rule: hoare_scan_j.induct)
  case (1 arr pivot j)
  show ?case
  proof (cases "js_gt (get arr (j - 1)) pivot")
    case True
    with 1 show ?thesis by (subst hoare_scan_j.simps) (simp add: Let_def)
  next
    case False
    then show ?thesis by (subst hoare_scan_j.simps) (simp add: Let_def)
  qed
qed

text \<open>The \<^verbatim>\<open>while (true)\<close> loop of \<^verbatim>\<open>hoarePartition\<close>; it returns from inside.\<close>

function hoare_loop ::
  "'a::linorder jsarray \<Rightarrow> 'a option \<Rightarrow> int \<Rightarrow> int \<Rightarrow> 'a jsarray \<times> int" where
  "hoare_loop arr pivot i j =
     (let i1 = hoare_scan_i arr pivot i;
          j1 = hoare_scan_j arr pivot j
      in if i1 \<ge> j1 then (arr, j1) else hoare_loop (swap arr i1 j1) pivot i1 j1)"
  by pat_completeness auto

lemma hoare_loop_total: "All hoare_loop_dom"
proof (relation "measure (\<lambda>(arr, pivot, i, j). nat (j - i))", goal_cases)
  case 1
  show ?case by simp
next
  case (2 arr pivot i j i1 j1)
  have "i < i1" "j1 < j"
    unfolding 2(1,2) by (rule hoare_scan_i_greater, rule hoare_scan_j_less)
  with 2(3) show ?case by simp
qed

termination hoare_loop
  by (rule hoare_loop_total)

declare hoare_loop.simps [simp del]

definition hoarePartition :: "'a::linorder jsarray \<Rightarrow> int \<Rightarrow> int \<Rightarrow> 'a jsarray \<times> int" where
  "hoarePartition arr low high =
     (let pivot = get arr low
      in hoare_loop arr pivot (low - 1) (high + 1))"

section \<open>Hoare partition with a log of its array accesses\<close>

text \<open>
  To state which indices \<^verbatim>\<open>hoarePartition\<close> touches, the same code is run with a log:
  every read \<^verbatim>\<open>arr[i]\<close> and every write \<^verbatim>\<open>arr[i] = v\<close> appends \<open>i\<close> to the list of indices
  accessed so far. Dropping the log gives back the functions above
  (\<open>hoarePartition_log_result\<close>).
\<close>

definition get_log :: "'a jsarray \<Rightarrow> int \<Rightarrow> int list \<Rightarrow> 'a option \<times> int list" where
  "get_log arr i seen = (get arr i, seen @ [i])"

definition put_log :: "'a jsarray \<Rightarrow> int \<Rightarrow> 'a option \<Rightarrow> int list \<Rightarrow> 'a jsarray \<times> int list" where
  "put_log arr i v seen = (put arr i v, seen @ [i])"

definition swap_log :: "'a jsarray \<Rightarrow> int \<Rightarrow> int \<Rightarrow> int list \<Rightarrow> 'a jsarray \<times> int list" where
  "swap_log arr i j seen =
     (let (x, seen1) = get_log arr j seen;
          (y, seen2) = get_log arr i seen1;
          (arr1, seen3) = put_log arr i x seen2
      in put_log arr1 j y seen3)"

function hoare_scan_i_log ::
  "'a::linorder jsarray \<Rightarrow> 'a option \<Rightarrow> int \<Rightarrow> int list \<Rightarrow> int \<times> int list" where
  "hoare_scan_i_log arr pivot i seen =
     (let i1 = i + 1;
          (x, seen1) = get_log arr i1 seen
      in if js_lt x pivot then hoare_scan_i_log arr pivot i1 seen1 else (i1, seen1))"
  by pat_completeness auto

lemma hoare_scan_i_log_total: "All hoare_scan_i_log_dom"
proof (relation "measure (\<lambda>(arr, pivot, i, seen). nat (top_index arr - i))", goal_cases)
  case 1
  show ?case by simp
next
  case (2 arr pivot i seen i1 p x seen1)
  then have "get arr (i + 1) \<noteq> None"
    using js_lt_defined [of "get arr (i + 1)" pivot] by (simp add: get_log_def)
  then have "i + 1 < top_index arr"
    by (rule get_defined_below_top)
  with 2 show ?case by simp
qed

termination hoare_scan_i_log
  by (rule hoare_scan_i_log_total)

function hoare_scan_j_log ::
  "'a::linorder jsarray \<Rightarrow> 'a option \<Rightarrow> int \<Rightarrow> int list \<Rightarrow> int \<times> int list" where
  "hoare_scan_j_log arr pivot j seen =
     (let j1 = j - 1;
          (x, seen1) = get_log arr j1 seen
      in if js_gt x pivot then hoare_scan_j_log arr pivot j1 seen1 else (j1, seen1))"
  by pat_completeness auto

lemma hoare_scan_j_log_total: "All hoare_scan_j_log_dom"
proof (relation "measure (\<lambda>(arr, pivot, j, seen). nat (j - bot_index arr))", goal_cases)
  case 1
  show ?case by simp
next
  case (2 arr pivot j seen j1 p x seen1)
  then have "get arr (j - 1) \<noteq> None"
    using js_lt_defined [of pivot "get arr (j - 1)"] by (simp add: js_gt_def get_log_def)
  then have "bot_index arr \<le> j - 1"
    by (rule get_defined_above_bot)
  with 2 show ?case by simp
qed

termination hoare_scan_j_log
  by (rule hoare_scan_j_log_total)

declare hoare_scan_i_log.simps [simp del] hoare_scan_j_log.simps [simp del]

lemma hoare_scan_i_log_result:
  "fst (hoare_scan_i_log arr pivot i seen) = hoare_scan_i arr pivot i"
proof (induction arr pivot i seen rule: hoare_scan_i_log.induct)
  case (1 arr pivot i seen)
  show ?case
  proof (cases "js_lt (get arr (i + 1)) pivot")
    case True
    then show ?thesis
      using "1.IH" [OF refl refl, of "get arr (i + 1)" "seen @ [i + 1]"]
      by (subst hoare_scan_i_log.simps, subst hoare_scan_i.simps) (simp add: get_log_def Let_def)
  next
    case False
    then show ?thesis
      by (subst hoare_scan_i_log.simps, subst hoare_scan_i.simps) (simp add: get_log_def Let_def)
  qed
qed

lemma hoare_scan_j_log_result:
  "fst (hoare_scan_j_log arr pivot j seen) = hoare_scan_j arr pivot j"
proof (induction arr pivot j seen rule: hoare_scan_j_log.induct)
  case (1 arr pivot j seen)
  show ?case
  proof (cases "js_gt (get arr (j - 1)) pivot")
    case True
    then show ?thesis
      using "1.IH" [OF refl refl, of "get arr (j - 1)" "seen @ [j - 1]"]
      by (subst hoare_scan_j_log.simps, subst hoare_scan_j.simps) (simp add: get_log_def Let_def)
  next
    case False
    then show ?thesis
      by (subst hoare_scan_j_log.simps, subst hoare_scan_j.simps) (simp add: get_log_def Let_def)
  qed
qed

lemma swap_log_result: "fst (swap_log arr i j seen) = swap arr i j"
  by (simp add: swap_log_def swap_def get_log_def put_log_def Let_def)

function hoare_loop_log ::
  "'a::linorder jsarray \<Rightarrow> 'a option \<Rightarrow> int \<Rightarrow> int \<Rightarrow> int list
    \<Rightarrow> ('a jsarray \<times> int) \<times> int list" where
  "hoare_loop_log arr pivot i j seen =
     (let (i1, seen1) = hoare_scan_i_log arr pivot i seen;
          (j1, seen2) = hoare_scan_j_log arr pivot j seen1
      in if i1 \<ge> j1 then ((arr, j1), seen2)
         else (let (arr1, seen3) = swap_log arr i1 j1 seen2
               in hoare_loop_log arr1 pivot i1 j1 seen3))"
  by pat_completeness auto

lemma hoare_loop_log_total: "All hoare_loop_log_dom"
proof (relation "measure (\<lambda>(arr, pivot, i, j, seen). nat (j - i))", goal_cases)
  case 1
  show ?case by simp
next
  case (2 arr pivot i j seen p i1 seen1 q j1 seen2 r arr1 seen3)
  have "i1 = hoare_scan_i arr pivot i"
    using 2(1,2) hoare_scan_i_log_result [of arr pivot i seen] by (simp add: prod_eq_iff)
  moreover have "j1 = hoare_scan_j arr pivot j"
    using 2(3,4) hoare_scan_j_log_result [of arr pivot j seen1] by (simp add: prod_eq_iff)
  ultimately have "i < i1" "j1 < j"
    using hoare_scan_i_greater [of i arr pivot] hoare_scan_j_less [of arr pivot j] by simp_all
  with 2(5) show ?case by simp
qed

termination hoare_loop_log
  by (rule hoare_loop_log_total)

declare hoare_loop_log.simps [simp del]

definition hoarePartition_log ::
  "'a::linorder jsarray \<Rightarrow> int \<Rightarrow> int \<Rightarrow> ('a jsarray \<times> int) \<times> int list" where
  "hoarePartition_log arr low high =
     (let (pivot, seen1) = get_log arr low []
      in hoare_loop_log arr pivot (low - 1) (high + 1) seen1)"

lemma hoare_loop_log_result:
  "fst (hoare_loop_log arr pivot i j seen) = hoare_loop arr pivot i j"
proof (induction arr pivot i j seen rule: hoare_loop_log.induct)
  case (1 arr pivot i j seen)
  obtain i1 seen1 where si: "hoare_scan_i_log arr pivot i seen = (i1, seen1)"
    by (cases "hoare_scan_i_log arr pivot i seen") simp
  obtain j1 seen2 where sj: "hoare_scan_j_log arr pivot j seen1 = (j1, seen2)"
    by (cases "hoare_scan_j_log arr pivot j seen1") simp
  obtain arr1 seen3 where sw: "swap_log arr i1 j1 seen2 = (arr1, seen3)"
    by (cases "swap_log arr i1 j1 seen2") simp
  have i1: "hoare_scan_i arr pivot i = i1"
    using hoare_scan_i_log_result [of arr pivot i seen] si by simp
  have j1: "hoare_scan_j arr pivot j = j1"
    using hoare_scan_j_log_result [of arr pivot j seen1] sj by simp
  have arr1: "swap arr i1 j1 = arr1"
    using swap_log_result [of arr i1 j1 seen2] sw by simp
  show ?case
  proof (cases "i1 \<ge> j1")
    case True
    then show ?thesis
      by (subst hoare_loop_log.simps, subst hoare_loop.simps) (simp add: si sj i1 j1 Let_def)
  next
    case False
    then show ?thesis
      using "1.IH" [OF si [symmetric] refl sj [symmetric] refl False sw [symmetric] refl]
      by (subst hoare_loop_log.simps, subst hoare_loop.simps)
         (simp add: si sj sw i1 j1 arr1 Let_def)
  qed
qed

lemma hoarePartition_log_result:
  "fst (hoarePartition_log arr low high) = hoarePartition arr low high"
  by (simp add: hoarePartition_log_def hoarePartition_def get_log_def Let_def
      hoare_loop_log_result)

section \<open>Randomized and median-of-three pivots\<close>

text \<open>
  \<^verbatim>\<open>Math.random()\<close> is the only effect besides the array: the \<open>n\<close>-th call returns
  \<open>rnd n\<close>, and the number of calls made so far is threaded through with the array.
  JavaScript promises \<open>0 \<le> rnd n < 1\<close>; the product with the range size is taken in
  the reals, without floating-point rounding.
\<close>

function randomizedQuickSort ::
  "(nat \<Rightarrow> real) \<Rightarrow> 'a::linorder jsarray \<times> nat \<Rightarrow> int \<Rightarrow> int \<Rightarrow> 'a jsarray \<times> nat" where
  "randomizedQuickSort rnd (arr, n) low high =
     (if low < high
      then (let randomIndex = \<lfloor>rnd n * of_int (high - low + 1)\<rfloor> + low;
                arr0 = swap arr randomIndex high;
                (arr1, pivotIndex) = partition arr0 low high;
                s2 = randomizedQuickSort rnd (arr1, n + 1) low (pivotIndex - 1)
            in randomizedQuickSort rnd s2 (pivotIndex + 1) high)
      else (arr, n))"
  by pat_completeness auto

lemma randomizedQuickSort_total: "All randomizedQuickSort_dom"
proof (relation "measure (\<lambda>(rnd, s, low, high). nat (high - low))", goal_cases)
  case 1
  show ?case by simp
next
  case (2 rnd arr n low high randomIndex arr0 x arr1 pivotIndex)
  then show ?case
    using partition_index [of low high arr0] by (simp add: prod_eq_iff)
next
  case (3 rnd arr n low high randomIndex arr0 x arr1 pivotIndex s2)
  then show ?case
    using partition_index [of low high arr0] by (simp add: prod_eq_iff)
qed

termination randomizedQuickSort
  by (rule randomizedQuickSort_total)

declare randomizedQuickSort.simps [simp del]

text \<open>
  \<^verbatim>\<open>Math.floor((low + high) / 2)\<close> is the integer quotient rounded down, which is \<open>div\<close>
  on \<open>int\<close>. The three conditional swaps each read the array as the previous one
  left it.
\<close>

definition medianOfThree :: "'a::linorder jsarray \<Rightarrow> int \<Rightarrow> int \<Rightarrow> 'a jsarray \<times> int" where
  "medianOfThree arr low high =
     (let mid = (low + high) div 2;
          arr1 = (if js_lt (get arr mid) (get arr low) then swap arr low mid else arr);
          arr2 = (if js_lt (get arr1 high) (get arr1 low) then swap arr1 low high else arr1);
          arr3 = (if js_lt (get arr2 high) (get arr2 mid) then swap arr2 mid high else arr2)
      in (arr3, mid))"

function medianOfThreeQuickSort :: "'a::linorder jsarray \<Rightarrow> int \<Rightarrow> int \<Rightarrow> 'a jsarray" where
  "medianOfThreeQuickSort arr low high =
     (if low < high
      then (let (arr0, pivotIndex) = medianOfThree arr low high;
                arr1 = swap arr0 pivotIndex high;
                (arr2, newPivotIndex) = partition arr1 low high;
                arr3 = medianOfThreeQuickSort arr2 low (newPivotIndex - 1)
            in medianOfThreeQuickSort arr3 (newPivotIndex + 1) high)
      else arr)"
  by pat_completeness auto

lemma medianOfThreeQuickSort_total: "All medianOfThreeQuickSort_dom"
proof (relation "measure (\<lambda>(arr, low, high). nat (high - low))", goal_cases)
  case 1
  show ?case by simp
next
  case (2 arr low high x arr0 pivotIndex arr1 y arr2 newPivotIndex)
  then show ?case
    using partition_index [of low high arr1] by (simp add: prod_eq_iff)
next
  case (3 arr low high x arr0 pivotIndex arr1 y arr2 newPivotIndex arr3)
  then show ?case
    using partition_index [of low high arr1] by (simp add: prod_eq_iff)
qed

termination medianOfThreeQuickSort
  by (rule medianOfThreeQuickSort_total)

declare medianOfThreeQuickSort.simps [simp del]

section \<open>Iterative sort\<close>

text \<open>
  The explicit stack is a JavaScript array of numbers: \<^verbatim>\<open>push\<close> appends at the end and
  \<^verbatim>\<open>pop\<close> removes the last element, returning \<^verbatim>\<open>undefined\<close> on an empty array.
\<close>

definition push :: "int list \<Rightarrow> int \<Rightarrow> int list" where
  "push stack x = stack @ [x]"

definition pop :: "int list \<Rightarrow> int option \<times> int list" where
  "pop stack = (if stack = [] then (None, []) else (Some (last stack), butlast stack))"

text \<open>
  Each stacked range \<open>(low, high)\<close> stands for at most \<open>2 * (high - low + 1) + 1\<close> further
  iterations of the loop; a partition replaces a range by two ranges that together
  are one element smaller.
\<close>

fun pending :: "int list \<Rightarrow> nat" where
  "pending (high # low # rest) = 2 * nat (high - low + 1) + 1 + pending rest"
| "pending [high] = 1"
| "pending [] = 0"

function iterative_loop :: "'a::linorder jsarray \<Rightarrow> int list \<Rightarrow> 'a jsarray" where
  "iterative_loop arr stack =
     (if length stack > 0
      then (let (high, stack1) = pop stack;
                (low, stack2) = pop stack1
            in (case (low, high) of
                  (Some l, Some h) \<Rightarrow>
                    (if l < h
                     then (let (arr1, pivotIndex) = partition arr l h
                           in iterative_loop arr1
                                (push (push (push (push stack2 l) (pivotIndex - 1))
                                   (pivotIndex + 1)) h))
                     else iterative_loop arr stack2)
                | _ \<Rightarrow> iterative_loop arr stack2))
      else arr)"
  by pat_completeness auto

lemma iterative_loop_total: "All iterative_loop_dom"
proof (relation "measure (\<lambda>(arr, stack). pending (rev stack))", goal_cases)
  case 1
  show ?case by simp
next
  case (2 arr stack x high stack1 y low stack2)
  then show ?case
    by (cases stack rule: rev_cases; cases stack1 rule: rev_cases)
       (auto simp add: pop_def)
next
  case (3 arr stack x high stack1 y low stack2 z l)
  then show ?case
    by (cases stack rule: rev_cases; cases stack1 rule: rev_cases)
       (auto simp add: pop_def)
next
  case (4 arr stack x high stack1 y low stack2 low' high' l h w arr1 pivotIndex)
  then have "stack = stack2 @ [l, h]"
    by (cases stack rule: rev_cases; cases stack1 rule: rev_cases)
       (auto simp add: pop_def)
  moreover have "l \<le> pivotIndex \<and> pivotIndex \<le> h"
    using 4 partition_index [of l h arr] by (simp add: prod_eq_iff)
  ultimately show ?case by (simp add: push_def; linarith)
next
  case (5 arr stack x high stack1 y low stack2 z l h)
  then show ?case
    by (cases stack rule: rev_cases; cases stack1 rule: rev_cases)
       (auto simp add: pop_def)
qed

termination iterative_loop
  by (rule iterative_loop_total)

declare iterative_loop.simps [simp del]

definition iterativeQuickSort :: "'a::linorder jsarray \<Rightarrow> 'a jsarray" where
  "iterativeQuickSort arr = iterative_loop arr (push (push [] 0) (len arr - 1))"

section \<open>Three-way partition\<close>

text \<open>
  The \<^verbatim>\<open>while (i <= gt)\<close> loop of \<^verbatim>\<open>threeWayPartition\<close>. \<^verbatim>\<open>swap(arr, lt++, i++)\<close> swaps at
  the old values of \<open>lt\<close> and \<open>i\<close>, \<^verbatim>\<open>swap(arr, i, gt--)\<close> at the old value of \<open>gt\<close>.
\<close>

function threeWay_loop ::
  "'a::linorder jsarray \<Rightarrow> 'a option \<Rightarrow> int \<Rightarrow> int \<Rightarrow> int \<Rightarrow> 'a jsarray \<times> int \<times> int" where
  "threeWay_loop arr pivot lt i gt =
     (if i \<le> gt
      then (if js_lt (get arr i) pivot
            then threeWay_loop (swap arr lt i) pivot (lt + 1) (i + 1) gt
            else if js_gt (get arr i) pivot
            then threeWay_loop (swap arr i gt) pivot lt i (gt - 1)
            else threeWay_loop arr pivot lt (i + 1) gt)
      else (arr, lt, gt))"
  by pat_completeness auto

lemma threeWay_loop_total: "All threeWay_loop_dom"
  by (relation "measure (\<lambda>(arr, pivot, lt, i, gt). nat (gt + 1 - i))") auto

termination threeWay_loop
  by (rule threeWay_loop_total)

declare threeWay_loop.simps [simp del]

definition threeWayPartition ::
  "'a::linorder jsarray \<Rightarrow> int \<Rightarrow> int \<Rightarrow> 'a jsarray \<times> int \<times> int" where
  "threeWayPartition arr low high =
     (let pivot = get arr low
      in threeWay_loop arr pivot low (low + 1) high)"

lemma threeWay_loop_stop:
  "\<not> i \<le> gt \<Longrightarrow> threeWay_loop arr pivot lt i gt = (arr, lt, gt)"
  by (subst threeWay_loop.simps) simp

lemma threeWay_loop_less:
  "i \<le> gt \<Longrightarrow> js_lt (get arr i) pivot \<Longrightarrow>
   threeWay_loop arr pivot lt i gt = threeWay_loop (swap arr lt i) pivot (lt + 1) (i + 1) gt"
  by (subst threeWay_loop.simps) simp

lemma threeWay_loop_greater:
  "i \<le> gt \<Longrightarrow> \<not> js_lt (get arr i) pivot \<Longrightarrow> js_gt (get arr i) pivot \<Longrightarrow>
   threeWay_loop arr pivot lt i gt = threeWay_loop (swap arr i gt) pivot lt i (gt - 1)"
  by (subst threeWay_loop.simps) simp

lemma threeWay_loop_equal:
  "i \<le> gt \<Longrightarrow> \<not> js_lt (get arr i) pivot \<Longrightarrow> \<not> js_gt (get arr i) pivot \<Longrightarrow>
   threeWay_loop arr pivot lt i gt = threeWay_loop arr pivot lt (i + 1) gt"
  by (subst threeWay_loop.simps) simp

lemma threeWay_loop_index:
  "lt < i \<Longrightarrow> i \<le> gt + 1 \<Longrightarrow>
   lt \<le> fst (snd (threeWay_loop arr pivot lt i gt))
   \<and> fst (snd (threeWay_loop arr pivot lt i gt)) \<le> snd (snd (threeWay_loop arr pivot lt i gt))
   \<and> snd (snd (threeWay_loop arr pivot lt i gt)) \<le> gt"
proof (induction arr pivot lt i gt rule: threeWay_loop.induct)
  case (1 arr pivot lt i gt)
  then show ?case
    by (cases "i \<le> gt"; cases "js_lt (get arr i) pivot"; cases "js_gt (get arr i) pivot")
       (auto simp add: threeWay_loop_stop threeWay_loop_less threeWay_loop_greater
          threeWay_loop_equal)
qed

lemma threeWayPartition_index:
  assumes "low < high"
  shows "low \<le> fst (snd (threeWayPartition arr low high))
    \<and> fst (snd (threeWayPartition arr low high)) \<le> snd (snd (threeWayPartition arr low high))
    \<and> snd (snd (threeWayPartition arr low high)) \<le> high"
  using threeWay_loop_index [of low "low + 1" high arr "get arr low"] assms
  by (simp add: threeWayPartition_def Let_def)

function threeWayQuickSort :: "'a::linorder jsarray \<Rightarrow> int \<Rightarrow> int \<Rightarrow> 'a jsarray" where
  "threeWayQuickSort arr low high =
     (if low < high
      then (let (arr1, lt, gt) = threeWayPartition arr low high;
                arr2 = threeWayQuickSort arr1 low (lt - 1)
            in threeWayQuickSort arr2 (gt + 1) high)
      else arr)"
  by pat_completeness auto

lemma threeWayQuickSort_total: "All threeWayQuickSort_dom"
proof (relation "measure (\<lambda>(arr, low, high). nat (high - low))", goal_cases)
  case 1
  show ?case by simp
next
  case (2 arr low high x arr1 y lt gt)
  then show ?case
    using threeWayPartition_index [of low high arr] by (simp add: prod_eq_iff)
next
  case (3 arr low high x arr1 y lt gt arr2)
  then show ?case
    using threeWayPartition_index [of low high arr] by (simp add: prod_eq_iff)
qed

termination threeWayQuickSort
  by (rule threeWayQuickSort_total)

declare threeWayQuickSort.simps [simp del]

section \<open>Calls with default bounds, and the sortedness check\<close>

text \<open>
  Every recursive variant declares \<^verbatim>\<open>low = 0, high = arr.length - 1\<close>; a call with the
  array alone sorts the whole array.
\<close>

definition quickSort_default :: "'a::linorder jsarray \<Rightarrow> 'a jsarray" where
  "quickSort_default arr = quickSort arr 0 (len arr - 1)"

definition randomizedQuickSort_default ::
  "(nat \<Rightarrow> real) \<Rightarrow> 'a::linorder jsarray \<times> nat \<Rightarrow> 'a jsarray \<times> nat" where
  "randomizedQuickSort_default rnd s = randomizedQuickSort rnd s 0 (len (fst s) - 1)"

definition medianOfThreeQuickSort_default :: "'a::linorder jsarray \<Rightarrow> 'a jsarray" where
  "medianOfThreeQuickSort_default arr = medianOfThreeQuickSort arr 0 (len arr - 1)"

definition threeWayQuickSort_default :: "'a::linorder jsarray \<Rightarrow> 'a jsarray" where
  "threeWayQuickSort_default arr = threeWayQuickSort arr 0 (len arr - 1)"

text \<open>
  \<^verbatim>\<open>isSorted\<close>: \<^verbatim>\<open>for (let i = 1; i < arr.length; i++) { if (arr[i] < arr[i - 1]) return false; }\<close>
  \<^verbatim>\<open>return true;\<close>
\<close>

function isSorted_loop :: "'a::linorder jsarray \<Rightarrow> int \<Rightarrow> bool" where
  "isSorted_loop arr i =
     (if i < len arr
      then (if js_lt (get arr i) (get arr (i - 1)) then False else isSorted_loop arr (i + 1))
      else True)"
  by pat_completeness auto

lemma isSorted_loop_total: "All isSorted_loop_dom"
  by (relation "measure (\<lambda>(arr, i). nat (len arr - i))") auto

termination isSorted_loop
  by (rule isSorted_loop_total)

declare isSorted_loop.simps [simp del]

definition isSorted :: "'a::linorder jsarray \<Rightarrow> bool" where
  "isSorted arr = isSorted_loop arr 1"

text \<open>The array literal \<^verbatim>\<open>[x0, x1, ...]\<close> of numbers.\<close>

definition array_of :: "'a list \<Rightarrow> 'a jsarray" where
  "array_of xs = \<lparr>elems = map Some xs, props = []\<rparr>"

section \<open>Vocabulary of the properties\<close>

text \<open>
  The properties below are about arrays all of whose elements are numbers (\<open>numeric\<close>),
  accessed at indices \<open>0 \<le> i < length\<close> (\<open>in_range\<close>); \<open>nums\<close> reads the numbers of such
  an array off as a list.
\<close>

definition numeric :: "'a jsarray \<Rightarrow> bool" where
  "numeric arr = (None \<notin> set (elems arr))"

definition in_range :: "'a jsarray \<Rightarrow> int \<Rightarrow> bool" where
  "in_range arr i = (0 \<le> i \<and> i < len arr)"

definition nums :: "'a jsarray \<Rightarrow> 'a list" where
  "nums arr = map the (elems arr)"

text \<open>
  A list is non-descending when, in every adjacent pair, the earlier element is at most
  the later one. \<open>slice xs low high\<close> is the part of \<open>xs\<close> at the indices \<open>low, \<dots>, high\<close>
  (\<^verbatim>\<open>xs.slice(low, high + 1)\<close>).
\<close>

fun nondescending :: "'a::linorder list \<Rightarrow> bool" where
  "nondescending (x # y # zs) = (x \<le> y \<and> nondescending (y # zs))"
| "nondescending _ = True"

definition slice :: "'b list \<Rightarrow> int \<Rightarrow> int \<Rightarrow> 'b list" where
  "slice xs low high = take (nat (high + 1 - low)) (drop (nat low) xs)"

text \<open>
  Before each round of the \<^verbatim>\<open>while (true)\<close> loop, with \<open>pv\<close> the pivot: the elements up to
  \<open>i\<close> are at most \<open>pv\<close> and those from \<open>j\<close> on are at least \<open>pv\<close>; some element after \<open>i\<close>
  stops the upward scan inside the range and some element before \<open>j\<close> stops the downward
  scan; and \<open>j\<close> is inside the range except in the first round, where the pivot is still
  at \<open>low\<close>.
\<close>

definition hoare_inv :: "'a::linorder jsarray \<Rightarrow> 'a \<Rightarrow> int \<Rightarrow> int \<Rightarrow> int \<Rightarrow> int \<Rightarrow> bool" where
  "hoare_inv arr pv low high i j \<longleftrightarrow>
     0 \<le> low \<and> high < len arr \<and> numeric arr \<and> low - 1 \<le> i \<and> i < j \<and> j \<le> high + 1
     \<and> (\<exists>k. i < k \<and> k \<le> high \<and> \<not> js_lt (get arr k) (Some pv))
     \<and> (\<exists>k. low \<le> k \<and> k < j \<and> \<not> js_gt (get arr k) (Some pv))
     \<and> (\<forall>m. low \<le> m \<and> m \<le> i \<longrightarrow> js_le (get arr m) (Some pv))
     \<and> (\<forall>m. j \<le> m \<and> m \<le> high \<longrightarrow> js_le (Some pv) (get arr m))
     \<and> (j \<le> high \<or> (i = low - 1 \<and> get arr low = Some pv))"

section \<open>Accesses inside the array\<close>

lemma get_in_range: "in_range arr i \<Longrightarrow> get arr i = elems arr ! nat i"
  by (simp add: get_def in_range_def)

lemma put_in_range:
  "in_range arr i \<Longrightarrow> put arr i v = arr\<lparr>elems := (elems arr)[nat i := v]\<rparr>"
  by (simp add: put_def in_range_def)

lemma swap_in_range:
  assumes "in_range arr i" "in_range arr j"
  shows "swap arr i j =
    arr\<lparr>elems := (elems arr)[nat i := elems arr ! nat j, nat j := elems arr ! nat i]\<rparr>"
  using assms
  by (simp add: swap_def Let_def get_in_range put_in_range in_range_def len_def)

lemma len_swap: "in_range arr i \<Longrightarrow> in_range arr j \<Longrightarrow> len (swap arr i j) = len arr"
  by (simp add: swap_in_range) (simp add: len_def)

lemma props_swap: "in_range arr i \<Longrightarrow> in_range arr j \<Longrightarrow> props (swap arr i j) = props arr"
  by (simp add: swap_in_range)

lemma in_range_swap:
  "in_range arr i \<Longrightarrow> in_range arr j \<Longrightarrow> in_range (swap arr i j) k = in_range arr k"
  by (simp add: in_range_def len_swap)

lemma in_range_nat: "in_range arr i \<Longrightarrow> nat i < length (elems arr)"
  by (simp add: in_range_def len_def nat_less_iff)

lemma mset_swap_elems:
  "in_range arr i \<Longrightarrow> in_range arr j \<Longrightarrow> mset (elems (swap arr i j)) = mset (elems arr)"
  by (simp add: swap_in_range mset_swap in_range_nat)

lemma get_swap:
  assumes "in_range arr i" "in_range arr j"
  shows "get (swap arr i j) k =
    (if k = j then get arr i else if k = i then get arr j else get arr k)"
proof (cases "in_range arr k")
  case True
  with assms show ?thesis
    by (simp add: get_in_range in_range_swap)
       (auto simp add: swap_in_range in_range_def len_def nth_list_update)
next
  case False
  with assms show ?thesis
    by (auto simp add: get_def props_swap len_swap in_range_def)
qed

lemma numeric_mset: "mset (elems arr') = mset (elems arr) \<Longrightarrow> numeric arr' = numeric arr"
  unfolding numeric_def by (metis mset_eq_setD)

lemma numeric_get: "numeric arr \<Longrightarrow> in_range arr i \<Longrightarrow> \<exists>v. get arr i = Some v"
  unfolding numeric_def in_range_def len_def
  by (metis get_def len_def nth_mem nat_less_iff not_Some_eq)

lemma numeric_swap:
  "in_range arr i \<Longrightarrow> in_range arr j \<Longrightarrow> numeric (swap arr i j) = numeric arr"
  by (rule numeric_mset) (rule mset_swap_elems)

section \<open>Invariant of the Lomuto partition\<close>

lemma partition_loop_inv:
  assumes "0 \<le> low" "low \<le> j" "j \<le> high" "high < len arr" "low - 1 \<le> i" "i < j"
    and "numeric arr"
    and "\<forall>k. low \<le> k \<and> k \<le> i \<longrightarrow> js_le (get arr k) (Some pv)"
    and "\<forall>k. i < k \<and> k < j \<longrightarrow> js_lt (Some pv) (get arr k)"
    and "partition_loop arr pivot high i j = (arr', i')" "pivot = Some pv"
  shows "len arr' = len arr \<and> props arr' = props arr
     \<and> mset (elems arr') = mset (elems arr)
     \<and> (\<forall>k. k < low \<or> high \<le> k \<longrightarrow> get arr' k = get arr k)
     \<and> low - 1 \<le> i' \<and> i' < high
     \<and> (\<forall>k. low \<le> k \<and> k \<le> i' \<longrightarrow> js_le (get arr' k) (Some pv))
     \<and> (\<forall>k. i' < k \<and> k < high \<longrightarrow> js_lt (Some pv) (get arr' k))"
  using assms
proof (induction arr pivot high i j arbitrary: arr' i' rule: partition_loop.induct)
  case (1 arr pivot high i j)
  note p = "1.prems"
  show ?case
  proof (cases "j < high")
    case False
    with p(3) have "j = high" by simp
    with p show ?thesis
      by (simp add: partition_loop_stop)
  next
    case True
    have rj: "in_range arr j"
      using p(1,2,4) True by (simp add: in_range_def)
    show ?thesis
    proof (cases "js_le (get arr j) pivot")
      case take: True
      let ?arr1 = "swap arr (i + 1) j"
      have ri: "in_range arr (i + 1)"
        using p(1,4,5,6) True by (simp add: in_range_def)
      have eq: "partition_loop ?arr1 pivot high (i + 1) (j + 1) = (arr', i')"
        using p(10) True take by (simp add: partition_loop_take)
      have le: "\<forall>k. low \<le> k \<and> k \<le> i + 1 \<longrightarrow> js_le (get ?arr1 k) (Some pv)"
        using p(6,8,11) take by (auto simp add: get_swap [OF ri rj])
      have gt: "\<forall>k. i + 1 < k \<and> k < j + 1 \<longrightarrow> js_lt (Some pv) (get ?arr1 k)"
        using p(6,9) by (simp add: get_swap [OF ri rj])
      have "len arr' = len ?arr1 \<and> props arr' = props ?arr1
         \<and> mset (elems arr') = mset (elems ?arr1)
         \<and> (\<forall>k. k < low \<or> high \<le> k \<longrightarrow> get arr' k = get ?arr1 k)
         \<and> low - 1 \<le> i' \<and> i' < high
         \<and> (\<forall>k. low \<le> k \<and> k \<le> i' \<longrightarrow> js_le (get arr' k) (Some pv))
         \<and> (\<forall>k. i' < k \<and> k < high \<longrightarrow> js_lt (Some pv) (get arr' k))"
      proof (rule "1.IH"(1) [OF True take _ _ _ _ _ _ _ le gt eq p(11)])
        show "0 \<le> low" by (rule p(1))
        show "low \<le> j + 1" using p(2) by simp
        show "j + 1 \<le> high" using True by simp
        show "high < len ?arr1" using p(4) by (simp add: len_swap ri rj)
        show "low - 1 \<le> i + 1" using p(5) by simp
        show "i + 1 < j + 1" using p(6) by simp
        show "numeric ?arr1" using p(7) by (simp add: numeric_swap ri rj)
      qed
      moreover have "\<forall>k. k < low \<or> high \<le> k \<longrightarrow> get ?arr1 k = get arr k"
        using p(2,5,6) True by (simp add: get_swap [OF ri rj])
      ultimately show ?thesis
        by (simp add: len_swap props_swap mset_swap_elems ri rj)
    next
      case skip: False
      have eq: "partition_loop arr pivot high i (j + 1) = (arr', i')"
        using p(10) True skip by (simp add: partition_loop_skip)
      obtain v where v: "get arr j = Some v"
        using numeric_get [OF p(7) rj] by blast
      have gt: "\<forall>k. i < k \<and> k < j + 1 \<longrightarrow> js_lt (Some pv) (get arr k)"
      proof (intro allI impI)
        fix k assume "i < k \<and> k < j + 1"
        then consider "i < k \<and> k < j" | "k = j" by linarith
        then show "js_lt (Some pv) (get arr k)"
        proof cases
          case 1
          with p(9) show ?thesis by simp
        next
          case 2
          with skip v p(11) show ?thesis by auto
        qed
      qed
      show ?thesis
      proof (rule "1.IH"(2) [OF True skip _ _ _ _ _ _ _ p(8) gt eq p(11)])
        show "0 \<le> low" by (rule p(1))
        show "low \<le> j + 1" using p(2) by simp
        show "j + 1 \<le> high" using True by simp
        show "high < len arr" by (rule p(4))
        show "low - 1 \<le> i" by (rule p(5))
        show "i < j + 1" using p(6) by simp
        show "numeric arr" by (rule p(7))
      qed
    qed
  qed
qed

lemma partition_spec:
  assumes "0 \<le> low" "low \<le> high" "high < len arr" "numeric arr"
    and "partition arr low high = (arr', p)"
  shows "len arr' = len arr \<and> props arr' = props arr
     \<and> mset (elems arr') = mset (elems arr)
     \<and> (\<forall>k. k < low \<or> high < k \<longrightarrow> get arr' k = get arr k)
     \<and> low \<le> p \<and> p \<le> high \<and> get arr' p = get arr high
     \<and> (\<forall>k. low \<le> k \<and> k < p \<longrightarrow> js_le (get arr' k) (get arr high))
     \<and> (\<forall>k. p < k \<and> k \<le> high \<longrightarrow> js_lt (get arr high) (get arr' k))"
proof -
  have rh: "in_range arr high"
    using assms(1-3) by (simp add: in_range_def)
  obtain pv where pv: "get arr high = Some pv"
    using numeric_get [OF assms(4) rh] by blast
  obtain arr1 i where loop: "partition_loop arr (get arr high) high (low - 1) low = (arr1, i)"
    by (cases "partition_loop arr (get arr high) high (low - 1) low") simp
  have inv: "len arr1 = len arr \<and> props arr1 = props arr
     \<and> mset (elems arr1) = mset (elems arr)
     \<and> (\<forall>k. k < low \<or> high \<le> k \<longrightarrow> get arr1 k = get arr k)
     \<and> low - 1 \<le> i \<and> i < high
     \<and> (\<forall>k. low \<le> k \<and> k \<le> i \<longrightarrow> js_le (get arr1 k) (Some pv))
     \<and> (\<forall>k. i < k \<and> k < high \<longrightarrow> js_lt (Some pv) (get arr1 k))"
    by (rule partition_loop_inv [OF assms(1) _ assms(2,3) _ _ assms(4) _ _ loop pv]) auto
  have r1: "in_range arr1 (i + 1)" and r2: "in_range arr1 high"
    using inv assms(1-3) by (simp_all add: in_range_def)
  have res: "arr' = swap arr1 (i + 1) high" "p = i + 1"
    using assms(5) loop by (auto simp add: partition_def Let_def)
  have "get arr' p = get arr high"
    using inv by (simp add: res get_swap [OF r1 r2])
  moreover have "\<forall>k. k < low \<or> high < k \<longrightarrow> get arr' k = get arr k"
    using inv by (simp add: res get_swap [OF r1 r2])
  moreover have "\<forall>k. low \<le> k \<and> k < p \<longrightarrow> js_le (get arr' k) (get arr high)"
    using inv by (simp add: res pv get_swap [OF r1 r2])
  moreover have "\<forall>k. p < k \<and> k \<le> high \<longrightarrow> js_lt (get arr high) (get arr' k)"
    using inv by (simp add: res pv get_swap [OF r1 r2])
  ultimately show ?thesis
    using inv by (simp add: res len_swap props_swap mset_swap_elems r1 r2)
qed

section \<open>Segments of an array of numbers\<close>

lemma map_Some_the: "None \<notin> set xs \<Longrightarrow> map Some (map the xs) = xs"
  by (induction xs) auto

lemma numeric_elems: "numeric arr \<Longrightarrow> elems arr = map Some (nums arr)"
  unfolding numeric_def nums_def by (simp add: map_Some_the del: map_map)

lemma length_nums: "length (nums arr) = length (elems arr)"
  by (simp add: nums_def)

lemma numeric_map_Some: "elems arr = map Some xs \<Longrightarrow> numeric arr"
  by (auto simp add: numeric_def)

lemma nums_map_Some: "elems arr = map Some xs \<Longrightarrow> nums arr = xs"
  by (simp add: nums_def comp_def)

lemma get_nums:
  assumes "numeric arr" "n < length (elems arr)"
  shows "get arr (int n) = Some (nums arr ! n)"
proof -
  have "get arr (int n) = elems arr ! n"
    using assms(2) by (simp add: get_def len_def)
  also have "\<dots> = Some (nums arr ! n)"
    using assms(2) by (subst numeric_elems [OF assms(1)]) (simp add: length_nums)
  finally show ?thesis .
qed

lemma list_segment:
  fixes zs xs :: "'b list"
  assumes "length zs = length xs" "l + n \<le> length xs"
    and "\<And>k. k < l \<Longrightarrow> zs ! k = xs ! k"
    and "\<And>k. l + n \<le> k \<Longrightarrow> k < length xs \<Longrightarrow> zs ! k = xs ! k"
  shows "zs = take l xs @ take n (drop l zs) @ drop (l + n) xs"
proof -
  have a: "take l zs = take l xs"
    using assms(1,2) by (intro nth_take_lemma) (simp_all add: assms(3))
  have b: "drop (l + n) zs = drop (l + n) xs"
    using assms(1,2) by (intro nth_equalityI) (simp_all add: assms(4))
  have "zs = take l zs @ take n (drop l zs) @ drop n (drop l zs)"
    by (simp only: append_take_drop_id)
  also have "drop n (drop l zs) = drop (l + n) zs"
    by (simp add: add.commute)
  finally show ?thesis
    by (simp only: a b)
qed

lemma mset_nums: "mset (elems arr') = mset (elems arr) \<Longrightarrow> mset (nums arr') = mset (nums arr)"
  unfolding nums_def by (metis mset_map)

lemma frame_segment:
  assumes "elems arr = map Some (A @ R @ B)"
    and "low = int (length A)" "high = int (length A) + int (length R) - 1"
    and "len arr' = len arr" "props arr' = props arr"
    and "mset (elems arr') = mset (elems arr)"
    and "\<forall>k. k < low \<or> high < k \<longrightarrow> get arr' k = get arr k"
  obtains M where "arr' = arr\<lparr>elems := map Some (A @ M @ B)\<rparr>"
    and "mset M = mset R" and "length M = length R"
    and "\<And>k. k < length R \<Longrightarrow> get arr' (low + int k) = Some (M ! k)"
proof -
  let ?xs = "A @ R @ B"
  let ?zs = "nums arr'"
  let ?M = "take (length R) (drop (length A) ?zs)"
  have na: "numeric arr"
    using assms(1) by (rule numeric_map_Some)
  have nz: "numeric arr'"
    using na numeric_mset [OF assms(6)] by simp
  have xs: "nums arr = ?xs"
    using assms(1) by (rule nums_map_Some)
  have len: "length (elems arr') = length ?xs" "length (elems arr) = length ?xs"
    using assms(1,4) by (simp_all add: len_def)
  have lz: "length ?zs = length ?xs"
    using len by (simp add: length_nums)
  have same: "?zs ! k = ?xs ! k" if "k < length ?xs" "k < length A \<or> length A + length R \<le> k" for k
  proof -
    have "get arr' (int k) = get arr (int k)"
      using that(2) assms(2,3,7) by auto
    then have "Some (?zs ! k) = Some (nums arr ! k)"
      using that(1) len by (simp add: get_nums na nz)
    then show ?thesis by (simp add: xs)
  qed
  have "?zs = take (length A) ?xs @ ?M @ drop (length A + length R) ?xs"
    by (rule list_segment [OF lz]) (simp_all add: same)
  then have zs: "?zs = A @ ?M @ B"
    by simp
  have "arr' = arr\<lparr>elems := elems arr'\<rparr>"
    using assms(5) by simp
  then have 1: "arr' = arr\<lparr>elems := map Some (A @ ?M @ B)\<rparr>"
    using numeric_elems [OF nz] zs by simp
  have "mset ?zs = mset ?xs"
    using mset_nums [OF assms(6)] by (simp add: xs)
  then have "mset (A @ ?M @ B) = mset (A @ R @ B)"
    using zs by simp
  then have 2: "mset ?M = mset R"
    by simp
  have 3: "length ?M = length R"
    using lz by simp
  have 4: "get arr' (low + int k) = Some (?M ! k)" if "k < length R" for k
  proof -
    have "get arr' (int (length A + k)) = Some (?zs ! (length A + k))"
      using that len by (intro get_nums [OF nz]) simp
    also have "?zs ! (length A + k) = ?M ! k"
      using that lz by simp
    finally show ?thesis
      by (simp add: assms(2))
  qed
  from 1 2 3 4 show thesis
    by (rule that)
qed

lemma partition_segment:
  assumes "elems arr = map Some (A @ R @ B)" "R \<noteq> []"
    and "low = int (length A)" "high = int (length A) + int (length R) - 1"
  obtains L G where
    "partition arr low high =
       (arr\<lparr>elems := map Some (A @ L @ last R # G @ B)\<rparr>, low + int (length L))"
    and "mset (L @ last R # G) = mset R"
    and "\<forall>x\<in>set L. x \<le> last R" and "\<forall>x\<in>set G. last R < x"
proof -
  obtain arr' p where part: "partition arr low high = (arr', p)"
    by (cases "partition arr low high") simp
  have na: "numeric arr"
    using assms(1) by (rule numeric_map_Some)
  have n0: "0 < length R"
    using assms(2) by simp
  have b: "0 \<le> low" "low \<le> high" "high < len arr"
    using assms(1,3,4) n0 by (simp_all add: len_def)
  obtain R0 r where R: "R = R0 @ [r]"
    using assms(2) by (cases R rule: rev_cases) auto
  have "get arr (int (length A + length R0)) = Some (nums arr ! (length A + length R0))"
    by (intro get_nums [OF na]) (simp add: assms(1) R)
  moreover have "int (length A + length R0) = high"
    by (simp add: assms(4) R)
  moreover have "nums arr ! (length A + length R0) = last R"
    by (simp add: nums_map_Some [OF assms(1)] R nth_append)
  ultimately have pv: "get arr high = Some (last R)"
    by simp
  have spec: "len arr' = len arr" "props arr' = props arr"
    "mset (elems arr') = mset (elems arr)"
    "\<forall>k. k < low \<or> high < k \<longrightarrow> get arr' k = get arr k"
    "low \<le> p" "p \<le> high" "get arr' p = Some (last R)"
    "\<forall>k. low \<le> k \<and> k < p \<longrightarrow> js_le (get arr' k) (Some (last R))"
    "\<forall>k. p < k \<and> k \<le> high \<longrightarrow> js_lt (Some (last R)) (get arr' k)"
    using partition_spec [OF b na part] by (simp_all add: pv)
  obtain M where M: "arr' = arr\<lparr>elems := map Some (A @ M @ B)\<rparr>"
    "mset M = mset R" "length M = length R"
    "\<And>k. k < length R \<Longrightarrow> get arr' (low + int k) = Some (M ! k)"
    using frame_segment [OF assms(1,3,4) spec(1-4)] by blast
  define m where "m = nat (p - low)"
  have m: "m < length M" "p = low + int m"
    using spec(5,6) assms(3,4) M(3) by (simp_all add: m_def)
  define L where "L = take m M"
  define G where "G = drop (Suc m) M"
  have "Some (M ! m) = Some (last R)"
    using M(4) [of m] m M(3) spec(7) by simp
  then have split: "M = L @ last R # G"
    using id_take_nth_drop [OF m(1)] by (simp add: L_def G_def)
  have lenL: "length L = m"
    using m(1) by (simp add: L_def)
  have 1: "partition arr low high =
       (arr\<lparr>elems := map Some (A @ L @ last R # G @ B)\<rparr>, low + int (length L))"
    using part M(1) m(2) by (simp add: split lenL)
  have 2: "mset (L @ last R # G) = mset R"
    using M(2) by (simp add: split)
  have 3: "\<forall>x\<in>set L. x \<le> last R"
  proof
    fix x assume "x \<in> set L"
    then obtain k where k: "k < m" "x = M ! k"
      using m(1) by (auto simp add: L_def in_set_conv_nth)
    have "js_le (get arr' (low + int k)) (Some (last R))"
      using spec(8) k(1) m(2) by simp
    then show "x \<le> last R"
      using M(4) [of k] k m(1) M(3) by simp
  qed
  have 4: "\<forall>x\<in>set G. last R < x"
  proof
    fix x assume "x \<in> set G"
    then obtain k where "k < length G" "x = G ! k"
      by (auto simp add: in_set_conv_nth)
    then have k: "Suc m + k < length M" "x = M ! (Suc m + k)"
      by (simp_all add: G_def)
    have "p < low + int (Suc m + k) \<and> low + int (Suc m + k) \<le> high"
      using k(1) m(2) M(3) assms(3,4) by simp
    then have "js_lt (Some (last R)) (get arr' (low + int (Suc m + k)))"
      using spec(9) by blast
    then show "last R < x"
      using M(4) [of "Suc m + k"] k M(3) by simp
  qed
  from 1 2 3 4 show thesis
    by (rule that)
qed

section \<open>The sort variants sort a segment\<close>

lemma sort_split:
  fixes R :: "'a::linorder list"
  assumes "mset (L @ p # G) = mset R" "\<forall>x\<in>set L. x \<le> p" "\<forall>x\<in>set G. p \<le> x"
  shows "sort R = sort L @ p # sort G"
proof (rule properties_for_sort)
  show "mset (sort L @ p # sort G) = mset R"
    using assms(1) by simp
  show "sorted (sort L @ p # sort G)"
    using assms(2,3) by (auto simp add: sorted_append intro: order_trans)
qed

lemma sort_short: "length R \<le> 1 \<Longrightarrow> sort R = R"
  by (cases R) (simp_all add: length_Suc_conv)

lemma elems_update_same: "elems arr = xs \<Longrightarrow> arr\<lparr>elems := xs\<rparr> = arr"
  by auto

lemma quickSort_segment:
  assumes "elems arr = map Some (A @ R @ B)"
    and "low = int (length A)" "high = int (length A) + int (length R) - 1"
  shows "quickSort arr low high = arr\<lparr>elems := map Some (A @ sort R @ B)\<rparr>"
  using assms
proof (induction arr low high arbitrary: A R B rule: quickSort.induct)
  case (1 arr low high)
  note p = "1.prems"
  show ?case
  proof (cases "low < high")
    case False
    then have "length R \<le> 1"
      using p(2,3) by simp
    then have "sort R = R"
      by (rule sort_short)
    moreover have "quickSort arr low high = arr"
      using False by (subst quickSort.simps) simp
    ultimately show ?thesis
      using p(1) by (simp add: elems_update_same)
  next
    case True
    then have "R \<noteq> []"
      using p(2,3) by auto
    then obtain L G where part: "partition arr low high =
        (arr\<lparr>elems := map Some (A @ L @ last R # G @ B)\<rparr>, low + int (length L))"
      and perm: "mset (L @ last R # G) = mset R"
      and le: "\<forall>x\<in>set L. x \<le> last R" and gt: "\<forall>x\<in>set G. last R < x"
      using partition_segment [OF p(1) _ p(2,3)] by blast
    let ?arr1 = "arr\<lparr>elems := map Some (A @ L @ last R # G @ B)\<rparr>"
    let ?p = "low + int (length L)"
    let ?arr2 = "arr\<lparr>elems := map Some (A @ sort L @ last R # G @ B)\<rparr>"
    have size: "length R = length L + 1 + length G"
      using perm by (metis mset_eq_length length_append length_Cons Suc_eq_plus1 add.assoc add.commute)
    have left: "quickSort ?arr1 low (?p - 1) = ?arr2"
      using "1.IH"(1) [OF True part [symmetric] refl, of A L "last R # G @ B"] p(2)
      by simp
    have right: "quickSort ?arr2 (?p + 1) high =
        arr\<lparr>elems := map Some ((A @ sort L @ [last R]) @ sort G @ B)\<rparr>"
      using "1.IH"(2) [OF True part [symmetric] refl left [symmetric],
          of "A @ sort L @ [last R]" G B] p(2,3) size
      by simp
    have "sort R = sort L @ last R # sort G"
      using perm le gt by (intro sort_split) auto
    moreover have "quickSort arr low high = quickSort ?arr2 (?p + 1) high"
      using True part left by (subst quickSort.simps) simp
    ultimately show ?thesis
      using right by simp
  qed
qed

lemma swap_segment:
  assumes "elems arr = map Some (A @ R @ B)"
    and "low = int (length A)" "high = int (length A) + int (length R) - 1"
    and "low \<le> i" "i \<le> high" "low \<le> j" "j \<le> high"
  obtains R' where "swap arr i j = arr\<lparr>elems := map Some (A @ R' @ B)\<rparr>"
    and "mset R' = mset R"
proof -
  have ri: "in_range arr i" and rj: "in_range arr j"
    using assms by (simp_all add: in_range_def len_def)
  have "\<forall>k. k < low \<or> high < k \<longrightarrow> get (swap arr i j) k = get arr k"
    using assms(4-7) by (simp add: get_swap [OF ri rj])
  then obtain M where "swap arr i j = arr\<lparr>elems := map Some (A @ M @ B)\<rparr>" "mset M = mset R"
    using frame_segment [OF assms(1-3) len_swap [OF ri rj] props_swap [OF ri rj]
        mset_swap_elems [OF ri rj]]
    by blast
  then show thesis
    by (rule that)
qed

lemma random_index_bounds:
  fixes r :: real
  assumes "0 \<le> r" "r < 1" "low \<le> high"
  shows "low \<le> \<lfloor>r * of_int (high - low + 1)\<rfloor> + low"
    and "\<lfloor>r * of_int (high - low + 1)\<rfloor> + low \<le> high"
proof -
  let ?m = "of_int (high - low + 1) :: real"
  have m: "0 < ?m"
    using assms(3) by simp
  have "0 \<le> r * ?m"
    using assms(1) m by simp
  then have "0 \<le> \<lfloor>r * ?m\<rfloor>"
    by simp
  then show "low \<le> \<lfloor>r * of_int (high - low + 1)\<rfloor> + low"
    by simp
  have "r * ?m < ?m"
    using assms(2) m by simp
  then have "\<lfloor>r * ?m\<rfloor> < high - low + 1"
    by (simp only: floor_less_iff)
  then show "\<lfloor>r * of_int (high - low + 1)\<rfloor> + low \<le> high"
    by simp
qed

lemma randomizedQuickSort_segment:
  assumes "\<forall>n. 0 \<le> rnd n \<and> rnd n < 1"
    and "elems (fst s) = map Some (A @ R @ B)"
    and "low = int (length A)" "high = int (length A) + int (length R) - 1"
  shows "fst (randomizedQuickSort rnd s low high) = (fst s)\<lparr>elems := map Some (A @ sort R @ B)\<rparr>"
  using assms
proof (induction rnd s low high arbitrary: A R B rule: randomizedQuickSort.induct)
  case (1 rnd arr n low high)
  note p = "1.prems"
  have el: "elems arr = map Some (A @ R @ B)"
    using p(2) by simp
  show ?case
  proof (cases "low < high")
    case False
    then have "length R \<le> 1"
      using p(3,4) by simp
    then have "sort R = R"
      by (rule sort_short)
    moreover have "randomizedQuickSort rnd (arr, n) low high = (arr, n)"
      using False by (subst randomizedQuickSort.simps) simp
    ultimately show ?thesis
      using el by (simp add: elems_update_same)
  next
    case True
    define randomIndex where "randomIndex = \<lfloor>rnd n * of_int (high - low + 1)\<rfloor> + low"
    have ri: "low \<le> randomIndex" "randomIndex \<le> high"
      using random_index_bounds [of "rnd n" low high] p(1) True
      by (simp_all add: randomIndex_def)
    obtain R' where sw: "swap arr randomIndex high = arr\<lparr>elems := map Some (A @ R' @ B)\<rparr>"
      and perm': "mset R' = mset R"
      using swap_segment [OF el p(3,4) ri less_imp_le [OF True] order_refl] by blast
    let ?arr0 = "arr\<lparr>elems := map Some (A @ R' @ B)\<rparr>"
    have len': "length R' = length R"
      using perm' by (rule mset_eq_length)
    have "R' \<noteq> []"
      using True p(3,4) len' by auto
    then obtain L G where part: "partition ?arr0 low high =
        (?arr0\<lparr>elems := map Some (A @ L @ last R' # G @ B)\<rparr>, low + int (length L))"
      and perm: "mset (L @ last R' # G) = mset R'"
      and le: "\<forall>x\<in>set L. x \<le> last R'" and gt: "\<forall>x\<in>set G. last R' < x"
      using partition_segment [of ?arr0 A R' B low high] p(3,4) len' by auto
    let ?arr1 = "arr\<lparr>elems := map Some (A @ L @ last R' # G @ B)\<rparr>"
    let ?p = "low + int (length L)"
    let ?arr2 = "arr\<lparr>elems := map Some (A @ sort L @ last R' # G @ B)\<rparr>"
    have part': "partition (swap arr randomIndex high) low high = (?arr1, ?p)"
      using part sw by simp
    have size: "length R = length L + 1 + length G"
      using perm len' by (metis mset_eq_length length_append length_Cons Suc_eq_plus1 add.assoc add.commute)
    define s2 where "s2 = randomizedQuickSort rnd (?arr1, n + 1) low (?p - 1)"
    have left: "fst s2 = ?arr2"
      unfolding s2_def
      using "1.IH"(1) [OF True randomIndex_def refl part' [symmetric] refl p(1),
          of A L "last R' # G @ B"] p(3)
      by simp
    have right: "fst (randomizedQuickSort rnd s2 (?p + 1) high) =
        arr\<lparr>elems := map Some ((A @ sort L @ [last R']) @ sort G @ B)\<rparr>"
      using "1.IH"(2) [OF True randomIndex_def refl part' [symmetric] refl s2_def p(1),
          of "A @ sort L @ [last R']" G B] p(3,4) size left
      by simp
    have "sort R' = sort L @ last R' # sort G"
      using perm le gt by (intro sort_split) auto
    moreover have "sort R' = sort R"
      using perm' by (metis properties_for_sort sorted_sort mset_sort)
    moreover have "randomizedQuickSort rnd (arr, n) low high
        = randomizedQuickSort rnd s2 (?p + 1) high"
      using True part' by (subst randomizedQuickSort.simps) (simp add: Let_def randomIndex_def s2_def)
    ultimately show ?thesis
      using right by simp
  qed
qed

lemma cond_swap_segment:
  assumes "elems arr = map Some (A @ R @ B)"
    and "low = int (length A)" "high = int (length A) + int (length R) - 1"
    and "low \<le> i" "i \<le> high" "low \<le> j" "j \<le> high"
  obtains R' where "(if c then swap arr i j else arr) = arr\<lparr>elems := map Some (A @ R' @ B)\<rparr>"
    and "mset R' = mset R"
proof (cases c)
  case True
  then show ?thesis
    using swap_segment [OF assms] that by auto
next
  case False
  then have "(if c then swap arr i j else arr) = arr\<lparr>elems := map Some (A @ R @ B)\<rparr>"
    using assms(1) by (simp add: elems_update_same)
  then show ?thesis
    using that by blast
qed

lemma medianOfThree_segment:
  assumes "elems arr = map Some (A @ R @ B)"
    and "low = int (length A)" "high = int (length A) + int (length R) - 1"
    and "low \<le> high"
  obtains R' where
    "medianOfThree arr low high = (arr\<lparr>elems := map Some (A @ R' @ B)\<rparr>, (low + high) div 2)"
    and "mset R' = mset R"
proof -
  define mid where "mid = (low + high) div 2"
  have mid: "low \<le> mid" "mid \<le> high"
    using assms(4) by (simp_all add: mid_def)
  define arr1 where "arr1 = (if js_lt (get arr mid) (get arr low) then swap arr low mid else arr)"
  define arr2 where
    "arr2 = (if js_lt (get arr1 high) (get arr1 low) then swap arr1 low high else arr1)"
  define arr3 where
    "arr3 = (if js_lt (get arr2 high) (get arr2 mid) then swap arr2 mid high else arr2)"
  have res: "medianOfThree arr low high = (arr3, mid)"
    by (simp add: medianOfThree_def Let_def mid_def arr1_def arr2_def arr3_def)
  obtain R1 where 1: "arr1 = arr\<lparr>elems := map Some (A @ R1 @ B)\<rparr>" "mset R1 = mset R"
    unfolding arr1_def
    using cond_swap_segment [OF assms(1-3) order_refl assms(4) mid] by blast
  have e1: "elems arr1 = map Some (A @ R1 @ B)"
    "high = int (length A) + int (length R1) - 1"
    using 1 assms(3) mset_eq_length [OF 1(2)] by simp_all
  obtain R2 where 2: "arr2 = arr1\<lparr>elems := map Some (A @ R2 @ B)\<rparr>" "mset R2 = mset R1"
    unfolding arr2_def
    using cond_swap_segment [OF e1(1) assms(2) e1(2) order_refl assms(4) assms(4) order_refl]
    by blast
  have e2: "elems arr2 = map Some (A @ R2 @ B)"
    "high = int (length A) + int (length R2) - 1"
    using 2 e1(2) mset_eq_length [OF 2(2)] by simp_all
  obtain R3 where 3: "arr3 = arr2\<lparr>elems := map Some (A @ R3 @ B)\<rparr>" "mset R3 = mset R2"
    unfolding arr3_def
    using cond_swap_segment [OF e2(1) assms(2) e2(2) mid assms(4) order_refl]
    by blast
  have "medianOfThree arr low high = (arr\<lparr>elems := map Some (A @ R3 @ B)\<rparr>, (low + high) div 2)"
    using res 1(1) 2(1) 3(1) by (simp add: mid_def)
  moreover have "mset R3 = mset R"
    using 1(2) 2(2) 3(2) by simp
  ultimately show thesis
    by (rule that)
qed

lemma mset_eq_sort: "mset R' = mset R \<Longrightarrow> sort R' = sort (R::'a::linorder list)"
  by (metis properties_for_sort sorted_sort mset_sort)

lemma medianOfThreeQuickSort_segment:
  assumes "elems arr = map Some (A @ R @ B)"
    and "low = int (length A)" "high = int (length A) + int (length R) - 1"
  shows "medianOfThreeQuickSort arr low high = arr\<lparr>elems := map Some (A @ sort R @ B)\<rparr>"
  using assms
proof (induction arr low high arbitrary: A R B rule: medianOfThreeQuickSort.induct)
  case (1 arr low high)
  note p = "1.prems"
  show ?case
  proof (cases "low < high")
    case False
    then have "length R \<le> 1"
      using p(2,3) by simp
    then have "sort R = R"
      by (rule sort_short)
    moreover have "medianOfThreeQuickSort arr low high = arr"
      using False by (subst medianOfThreeQuickSort.simps) simp
    ultimately show ?thesis
      using p(1) by (simp add: elems_update_same)
  next
    case True
    let ?mid = "(low + high) div 2"
    have mid: "low \<le> ?mid" "?mid \<le> high"
      using True by simp_all
    obtain R0 where med: "medianOfThree arr low high = (arr\<lparr>elems := map Some (A @ R0 @ B)\<rparr>, ?mid)"
      and perm0: "mset R0 = mset R"
      using medianOfThree_segment [OF p less_imp_le [OF True]] by blast
    let ?arr0 = "arr\<lparr>elems := map Some (A @ R0 @ B)\<rparr>"
    have e0: "elems ?arr0 = map Some (A @ R0 @ B)"
      "high = int (length A) + int (length R0) - 1"
      using p(3) mset_eq_length [OF perm0] by simp_all
    obtain R' where sw: "swap ?arr0 ?mid high = ?arr0\<lparr>elems := map Some (A @ R' @ B)\<rparr>"
      and perm1: "mset R' = mset R0"
      using swap_segment [OF e0(1) p(2) e0(2) mid less_imp_le [OF True] order_refl] by blast
    have perm': "mset R' = mset R"
      using perm0 perm1 by simp
    let ?arr1 = "arr\<lparr>elems := map Some (A @ R' @ B)\<rparr>"
    have len': "length R' = length R"
      using perm' by (rule mset_eq_length)
    have "R' \<noteq> []"
      using True p(2,3) len' by auto
    then obtain L G where part: "partition ?arr1 low high =
        (?arr1\<lparr>elems := map Some (A @ L @ last R' # G @ B)\<rparr>, low + int (length L))"
      and perm: "mset (L @ last R' # G) = mset R'"
      and le: "\<forall>x\<in>set L. x \<le> last R'" and gt: "\<forall>x\<in>set G. last R' < x"
      using partition_segment [of ?arr1 A R' B low high] p(2,3) len' by auto
    let ?arr2 = "arr\<lparr>elems := map Some (A @ L @ last R' # G @ B)\<rparr>"
    let ?p = "low + int (length L)"
    let ?arr3 = "arr\<lparr>elems := map Some (A @ sort L @ last R' # G @ B)\<rparr>"
    have sw': "swap ?arr0 ?mid high = ?arr1"
      using sw by simp
    have part': "partition ?arr1 low high = (?arr2, ?p)"
      using part by simp
    have size: "length R = length L + 1 + length G"
      using perm len' by (metis mset_eq_length length_append length_Cons Suc_eq_plus1 add.assoc add.commute)
    have left: "medianOfThreeQuickSort ?arr2 low (?p - 1) = ?arr3"
      using "1.IH"(1) [OF True med [symmetric] refl sw' [symmetric] part' [symmetric] refl,
          of A L "last R' # G @ B"] p(2)
      by simp
    have right: "medianOfThreeQuickSort ?arr3 (?p + 1) high =
        arr\<lparr>elems := map Some ((A @ sort L @ [last R']) @ sort G @ B)\<rparr>"
      using "1.IH"(2) [OF True med [symmetric] refl sw' [symmetric] part' [symmetric] refl
          left [symmetric], of "A @ sort L @ [last R']" G B] p(2,3) size
      by simp
    have "sort R' = sort L @ last R' # sort G"
      using perm le gt by (intro sort_split) auto
    moreover have "sort R' = sort R"
      using perm' by (rule mset_eq_sort)
    moreover have "medianOfThreeQuickSort arr low high = medianOfThreeQuickSort ?arr3 (?p + 1) high"
      using True med sw' part' left by (subst medianOfThreeQuickSort.simps) (simp add: Let_def)
    ultimately show ?thesis
      using right by simp
  qed
qed

lemma pop_two: "pop (stack @ [l, h]) = (Some h, stack @ [l])" "pop (stack @ [l]) = (Some l, stack)"
  by (simp_all add: pop_def butlast_append)

lemma iterative_loop_empty: "iterative_loop arr [] = arr"
  by (subst iterative_loop.simps) simp

lemma iterative_loop_skip:
  "\<not> l < h \<Longrightarrow> iterative_loop arr (stack @ [l, h]) = iterative_loop arr stack"
  by (subst iterative_loop.simps) (simp add: pop_two)

lemma iterative_loop_part:
  "l < h \<Longrightarrow> partition arr l h = (arr1, p) \<Longrightarrow>
   iterative_loop arr (stack @ [l, h]) = iterative_loop arr1 (stack @ [l, p - 1, p + 1, h])"
  by (subst iterative_loop.simps) (simp add: pop_two push_def)

lemma iterative_loop_segment:
  assumes "elems arr = map Some (A @ R @ B)"
    and "low = int (length A)" "high = int (length A) + int (length R) - 1"
  shows "iterative_loop arr (stack @ [low, high]) =
    iterative_loop (arr\<lparr>elems := map Some (A @ sort R @ B)\<rparr>) stack"
  using assms
proof (induction "length R" arbitrary: arr A R B low high stack rule: less_induct)
  case less
  note p = less.prems
  show ?case
  proof (cases "low < high")
    case False
    then have "length R \<le> 1"
      using p(2,3) by simp
    then have "sort R = R"
      by (rule sort_short)
    then show ?thesis
      using False p(1) by (simp add: iterative_loop_skip elems_update_same)
  next
    case True
    then have "R \<noteq> []"
      using p(2,3) by auto
    then obtain L G where part: "partition arr low high =
        (arr\<lparr>elems := map Some (A @ L @ last R # G @ B)\<rparr>, low + int (length L))"
      and perm: "mset (L @ last R # G) = mset R"
      and le: "\<forall>x\<in>set L. x \<le> last R" and gt: "\<forall>x\<in>set G. last R < x"
      using partition_segment [OF p(1) _ p(2,3)] by blast
    let ?arr1 = "arr\<lparr>elems := map Some (A @ L @ last R # G @ B)\<rparr>"
    let ?p = "low + int (length L)"
    let ?arr2 = "arr\<lparr>elems := map Some (A @ L @ last R # sort G @ B)\<rparr>"
    let ?arr3 = "arr\<lparr>elems := map Some (A @ sort L @ last R # sort G @ B)\<rparr>"
    have size: "length R = length L + 1 + length G"
      using perm by (metis mset_eq_length length_append length_Cons Suc_eq_plus1 add.assoc add.commute)
    have "iterative_loop arr (stack @ [low, high]) =
        iterative_loop ?arr1 ((stack @ [low, ?p - 1]) @ [?p + 1, high])"
      using iterative_loop_part [OF True part] by simp
    also have "\<dots> = iterative_loop ?arr2 (stack @ [low, ?p - 1])"
      using less.hyps [of G ?arr1 "A @ L @ [last R]" B "?p + 1" high "stack @ [low, ?p - 1]"]
        size p(2,3)
      by simp
    also have "\<dots> = iterative_loop ?arr3 stack"
      using less.hyps [of L ?arr2 A "last R # sort G @ B" low "?p - 1" stack] size p(2)
      by simp
    finally have "iterative_loop arr (stack @ [low, high]) = iterative_loop ?arr3 stack" .
    moreover have "sort R = sort L @ last R # sort G"
      using perm le gt by (intro sort_split) auto
    ultimately show ?thesis
      by simp
  qed
qed

lemma iterativeQuickSort_sorts:
  assumes "elems arr = map Some xs"
  shows "iterativeQuickSort arr = arr\<lparr>elems := map Some (sort xs)\<rparr>"
  using iterative_loop_segment [of arr "[]" xs "[]" 0 "len arr - 1" "[]"] assms
  by (simp add: iterativeQuickSort_def push_def len_def iterative_loop_empty)

section \<open>Invariant of the three-way partition\<close>

lemma threeWay_loop_inv:
  assumes "0 \<le> low" "low \<le> lt" "lt < i" "i \<le> gt + 1" "gt \<le> high" "high < len arr"
    and "numeric arr"
    and "\<forall>k. low \<le> k \<and> k < lt \<longrightarrow> js_lt (get arr k) (Some pv)"
    and "\<forall>k. lt \<le> k \<and> k < i \<longrightarrow> get arr k = Some pv"
    and "\<forall>k. gt < k \<and> k \<le> high \<longrightarrow> js_lt (Some pv) (get arr k)"
    and "threeWay_loop arr pivot lt i gt = (arr', lt', gt')" "pivot = Some pv"
  shows "len arr' = len arr \<and> props arr' = props arr
     \<and> mset (elems arr') = mset (elems arr)
     \<and> (\<forall>k. k < low \<or> high < k \<longrightarrow> get arr' k = get arr k)
     \<and> low \<le> lt' \<and> lt' \<le> gt' \<and> gt' \<le> high
     \<and> (\<forall>k. low \<le> k \<and> k < lt' \<longrightarrow> js_lt (get arr' k) (Some pv))
     \<and> (\<forall>k. lt' \<le> k \<and> k \<le> gt' \<longrightarrow> get arr' k = Some pv)
     \<and> (\<forall>k. gt' < k \<and> k \<le> high \<longrightarrow> js_lt (Some pv) (get arr' k))"
  using assms
proof (induction arr pivot lt i gt arbitrary: arr' lt' gt' rule: threeWay_loop.induct)
  case (1 arr pivot lt i gt)
  note p = "1.prems"
  show ?case
  proof (cases "i \<le> gt")
    case False
    with p(4) have "i = gt + 1" by simp
    moreover have "arr' = arr" "lt' = lt" "gt' = gt"
      using p(11) False by (simp_all add: threeWay_loop_stop)
    ultimately show ?thesis
      using p(1-10) by simp
  next
    case True
    have ri: "in_range arr i" and rl: "in_range arr lt" and rg: "in_range arr gt"
      using p(1-6) True by (simp_all add: in_range_def)
    obtain v where v: "get arr i = Some v"
      using numeric_get [OF p(7) ri] by blast
    show ?thesis
    proof (cases "js_lt (get arr i) pivot")
      case less: True
      let ?arr1 = "swap arr lt i"
      have eq: "threeWay_loop ?arr1 pivot (lt + 1) (i + 1) gt = (arr', lt', gt')"
        using p(11) True less by (simp add: threeWay_loop_less)
      have a: "\<forall>k. low \<le> k \<and> k < lt + 1 \<longrightarrow> js_lt (get ?arr1 k) (Some pv)"
        using p(3,8,12) less by (auto simp add: get_swap [OF rl ri])
      have b: "\<forall>k. lt + 1 \<le> k \<and> k < i + 1 \<longrightarrow> get ?arr1 k = Some pv"
        using p(3,9) by (simp add: get_swap [OF rl ri])
      have c: "\<forall>k. gt < k \<and> k \<le> high \<longrightarrow> js_lt (Some pv) (get ?arr1 k)"
        using p(3,10) True by (simp add: get_swap [OF rl ri])
      have "len arr' = len ?arr1 \<and> props arr' = props ?arr1
         \<and> mset (elems arr') = mset (elems ?arr1)
         \<and> (\<forall>k. k < low \<or> high < k \<longrightarrow> get arr' k = get ?arr1 k)
         \<and> low \<le> lt' \<and> lt' \<le> gt' \<and> gt' \<le> high
         \<and> (\<forall>k. low \<le> k \<and> k < lt' \<longrightarrow> js_lt (get arr' k) (Some pv))
         \<and> (\<forall>k. lt' \<le> k \<and> k \<le> gt' \<longrightarrow> get arr' k = Some pv)
         \<and> (\<forall>k. gt' < k \<and> k \<le> high \<longrightarrow> js_lt (Some pv) (get arr' k))"
      proof (rule "1.IH"(1) [OF True less p(1) _ _ _ p(5) _ _ a b c eq p(12)])
        show "low \<le> lt + 1" using p(2) by simp
        show "lt + 1 < i + 1" using p(3) by simp
        show "i + 1 \<le> gt + 1" using True by simp
        show "high < len ?arr1" using p(6) by (simp add: len_swap rl ri)
        show "numeric ?arr1" using p(7) by (simp add: numeric_swap rl ri)
      qed
      moreover have "\<forall>k. k < low \<or> high < k \<longrightarrow> get ?arr1 k = get arr k"
        using p(2,3,5) True by (simp add: get_swap [OF rl ri])
      ultimately show ?thesis
        by (simp add: len_swap props_swap mset_swap_elems rl ri)
    next
      case nless: False
      show ?thesis
      proof (cases "js_gt (get arr i) pivot")
        case greater: True
        let ?arr1 = "swap arr i gt"
        have eq: "threeWay_loop ?arr1 pivot lt i (gt - 1) = (arr', lt', gt')"
          using p(11) True nless greater by (simp add: threeWay_loop_greater)
        have a: "\<forall>k. low \<le> k \<and> k < lt \<longrightarrow> js_lt (get ?arr1 k) (Some pv)"
          using p(3,8) True by (simp add: get_swap [OF ri rg])
        have b: "\<forall>k. lt \<le> k \<and> k < i \<longrightarrow> get ?arr1 k = Some pv"
          using p(9) True by (simp add: get_swap [OF ri rg])
        have c: "\<forall>k. gt - 1 < k \<and> k \<le> high \<longrightarrow> js_lt (Some pv) (get ?arr1 k)"
          using p(10,12) greater True by (auto simp add: get_swap [OF ri rg] js_gt_def)
        have "len arr' = len ?arr1 \<and> props arr' = props ?arr1
           \<and> mset (elems arr') = mset (elems ?arr1)
           \<and> (\<forall>k. k < low \<or> high < k \<longrightarrow> get arr' k = get ?arr1 k)
           \<and> low \<le> lt' \<and> lt' \<le> gt' \<and> gt' \<le> high
           \<and> (\<forall>k. low \<le> k \<and> k < lt' \<longrightarrow> js_lt (get arr' k) (Some pv))
           \<and> (\<forall>k. lt' \<le> k \<and> k \<le> gt' \<longrightarrow> get arr' k = Some pv)
           \<and> (\<forall>k. gt' < k \<and> k \<le> high \<longrightarrow> js_lt (Some pv) (get arr' k))"
        proof (rule "1.IH"(2) [OF True nless greater p(1,2,3) _ _ _ _ a b c eq p(12)])
          show "i \<le> gt - 1 + 1" using True by simp
          show "gt - 1 \<le> high" using p(5) by simp
          show "high < len ?arr1" using p(6) by (simp add: len_swap ri rg)
          show "numeric ?arr1" using p(7) by (simp add: numeric_swap ri rg)
        qed
        moreover have "\<forall>k. k < low \<or> high < k \<longrightarrow> get ?arr1 k = get arr k"
          using p(2,3,5) True by (simp add: get_swap [OF ri rg])
        ultimately show ?thesis
          by (simp add: len_swap props_swap mset_swap_elems ri rg)
      next
        case ngreater: False
        have eq: "threeWay_loop arr pivot lt (i + 1) gt = (arr', lt', gt')"
          using p(11) True nless ngreater by (simp add: threeWay_loop_equal)
        have "v = pv"
          using nless ngreater v p(12) by (simp add: js_gt_def)
        then have b: "\<forall>k. lt \<le> k \<and> k < i + 1 \<longrightarrow> get arr k = Some pv"
          using p(9) v by (auto simp add: less_le)
        show ?thesis
        proof (rule "1.IH"(3) [OF True nless ngreater p(1,2) _ _ p(5,6,7,8) b p(10) eq p(12)])
          show "lt < i + 1" using p(3) by simp
          show "i + 1 \<le> gt + 1" using True by simp
        qed
      qed
    qed
  qed
qed

lemma threeWayPartition_spec:
  assumes "0 \<le> low" "low \<le> high" "high < len arr" "numeric arr"
    and "threeWayPartition arr low high = (arr', lt, gt)"
  shows "len arr' = len arr \<and> props arr' = props arr
     \<and> mset (elems arr') = mset (elems arr)
     \<and> (\<forall>k. k < low \<or> high < k \<longrightarrow> get arr' k = get arr k)
     \<and> low \<le> lt \<and> lt \<le> gt \<and> gt \<le> high
     \<and> (\<forall>k. low \<le> k \<and> k < lt \<longrightarrow> js_lt (get arr' k) (get arr low))
     \<and> (\<forall>k. lt \<le> k \<and> k \<le> gt \<longrightarrow> get arr' k = get arr low)
     \<and> (\<forall>k. gt < k \<and> k \<le> high \<longrightarrow> js_lt (get arr low) (get arr' k))"
proof -
  have rl: "in_range arr low"
    using assms(1-3) by (simp add: in_range_def)
  obtain pv where pv: "get arr low = Some pv"
    using numeric_get [OF assms(4) rl] by blast
  have loop: "threeWay_loop arr (get arr low) low (low + 1) high = (arr', lt, gt)"
    using assms(5) by (simp add: threeWayPartition_def Let_def)
  have "len arr' = len arr \<and> props arr' = props arr
     \<and> mset (elems arr') = mset (elems arr)
     \<and> (\<forall>k. k < low \<or> high < k \<longrightarrow> get arr' k = get arr k)
     \<and> low \<le> lt \<and> lt \<le> gt \<and> gt \<le> high
     \<and> (\<forall>k. low \<le> k \<and> k < lt \<longrightarrow> js_lt (get arr' k) (Some pv))
     \<and> (\<forall>k. lt \<le> k \<and> k \<le> gt \<longrightarrow> get arr' k = Some pv)
     \<and> (\<forall>k. gt < k \<and> k \<le> high \<longrightarrow> js_lt (Some pv) (get arr' k))"
  proof (rule threeWay_loop_inv [OF assms(1) order_refl _ _ order_refl assms(3,4) _ _ _ loop pv])
    show "low < low + 1" by simp
    show "low + 1 \<le> high + 1" using assms(2) by simp
    show "\<forall>k. low \<le> k \<and> k < low \<longrightarrow> js_lt (get arr k) (Some pv)" by auto
    show "\<forall>k. low \<le> k \<and> k < low + 1 \<longrightarrow> get arr k = Some pv"
    proof (intro allI impI)
      fix k assume "low \<le> k \<and> k < low + 1"
      then have "k = low" by simp
      then show "get arr k = Some pv" using pv by simp
    qed
    show "\<forall>k. high < k \<and> k \<le> high \<longrightarrow> js_lt (Some pv) (get arr k)" by auto
  qed
  then show ?thesis
    by (simp add: pv)
qed


lemma threeWayPartition_segment:
  assumes "elems arr = map Some (A @ R @ B)" "R \<noteq> []"
    and "low = int (length A)" "high = int (length A) + int (length R) - 1"
  obtains L E G where
    "threeWayPartition arr low high =
       (arr\<lparr>elems := map Some (A @ L @ E @ G @ B)\<rparr>,
        low + int (length L), low + int (length L) + int (length E) - 1)"
    and "mset (L @ E @ G) = mset R" and "E \<noteq> []"
    and "\<forall>x\<in>set L. x < hd R" and "\<forall>x\<in>set E. x = hd R" and "\<forall>x\<in>set G. hd R < x"
proof -
  obtain arr' lt gt where part: "threeWayPartition arr low high = (arr', lt, gt)"
    by (cases "threeWayPartition arr low high") auto
  have na: "numeric arr"
    using assms(1) by (rule numeric_map_Some)
  have b: "0 \<le> low" "low \<le> high" "high < len arr"
    using assms by (simp_all add: len_def Suc_le_eq)
  obtain r R0 where R: "R = r # R0"
    using assms(2) by (cases R) auto
  have "get arr (int (length A)) = Some (nums arr ! length A)"
    by (intro get_nums [OF na]) (simp add: assms(1) R)
  moreover have "nums arr ! length A = hd R"
    by (simp add: nums_map_Some [OF assms(1)] R)
  ultimately have pv: "get arr low = Some (hd R)"
    by (simp add: assms(3))
  have spec: "len arr' = len arr" "props arr' = props arr"
    "mset (elems arr') = mset (elems arr)"
    "\<forall>k. k < low \<or> high < k \<longrightarrow> get arr' k = get arr k"
    "low \<le> lt" "lt \<le> gt" "gt \<le> high"
    "\<forall>k. low \<le> k \<and> k < lt \<longrightarrow> js_lt (get arr' k) (Some (hd R))"
    "\<forall>k. lt \<le> k \<and> k \<le> gt \<longrightarrow> get arr' k = Some (hd R)"
    "\<forall>k. gt < k \<and> k \<le> high \<longrightarrow> js_lt (Some (hd R)) (get arr' k)"
    using threeWayPartition_spec [OF b na part] by (simp_all add: pv)
  obtain M where M: "arr' = arr\<lparr>elems := map Some (A @ M @ B)\<rparr>"
    "mset M = mset R" "length M = length R"
    "\<And>k. k < length R \<Longrightarrow> get arr' (low + int k) = Some (M ! k)"
    using frame_segment [OF assms(1,3,4) spec(1-4)] by blast
  define m where "m = nat (lt - low)"
  define n where "n = nat (gt + 1 - lt)"
  have m: "m + n \<le> length M" "lt = low + int m" "gt = low + int m + int n - 1" "0 < n"
    using spec(5,6,7) assms(3,4) M(3) by (simp_all add: m_def n_def)
  define L where "L = take m M"
  define E where "E = take n (drop m M)"
  define G where "G = drop (m + n) M"
  have split: "M = L @ E @ G"
    unfolding L_def E_def G_def
    by (metis append_take_drop_id drop_drop add.commute)
  have lenL: "length L = m" and lenE: "length E = n"
    using m(1) by (simp_all add: L_def E_def)
  have 1: "threeWayPartition arr low high =
       (arr\<lparr>elems := map Some (A @ L @ E @ G @ B)\<rparr>,
        low + int (length L), low + int (length L) + int (length E) - 1)"
    using part M(1) m(2,3) by (simp add: split lenL lenE)
  have 2: "mset (L @ E @ G) = mset R"
    using M(2) by (simp add: split)
  have 3: "E \<noteq> []"
    using lenE m(4) by auto
  have 4: "\<forall>x\<in>set L. x < hd R"
  proof
    fix x assume "x \<in> set L"
    then obtain k where "k < length L" "x = L ! k"
      by (auto simp add: in_set_conv_nth)
    then have k: "k < m" "x = M ! k"
      using lenL by (simp_all add: L_def)
    have "js_lt (get arr' (low + int k)) (Some (hd R))"
      using spec(8) k(1) m(2) by simp
    then show "x < hd R"
      using M(4) [of k] k m(1) M(3) by simp
  qed
  have 5: "\<forall>x\<in>set E. x = hd R"
  proof
    fix x assume "x \<in> set E"
    then obtain k where "k < length E" "x = E ! k"
      by (auto simp add: in_set_conv_nth)
    then have k: "k < n" "x = M ! (m + k)"
      using lenE m(1) by (simp_all add: E_def)
    have "lt \<le> low + int (m + k) \<and> low + int (m + k) \<le> gt"
      using k(1) m(2,3) by simp
    then have "get arr' (low + int (m + k)) = Some (hd R)"
      using spec(9) by blast
    then show "x = hd R"
      using M(4) [of "m + k"] k m(1) M(3) by simp
  qed
  have 6: "\<forall>x\<in>set G. hd R < x"
  proof
    fix x assume "x \<in> set G"
    then obtain k where "k < length G" "x = G ! k"
      by (auto simp add: in_set_conv_nth)
    then have k: "m + n + k < length M" "x = M ! (m + n + k)"
      by (simp_all add: G_def)
    have "gt < low + int (m + n + k) \<and> low + int (m + n + k) \<le> high"
      using k(1) m(2,3) M(3) assms(3,4) by simp
    then have "js_lt (Some (hd R)) (get arr' (low + int (m + n + k)))"
      using spec(10) by blast
    then show "hd R < x"
      using M(4) [of "m + n + k"] k M(3) by simp
  qed
  from 1 2 3 4 5 6 show thesis
    by (rule that)
qed

lemma sort_split3:
  fixes R :: "'a::linorder list"
  assumes "mset (L @ E @ G) = mset R"
    and "\<forall>x\<in>set L. x < p" "\<forall>x\<in>set E. x = p" "\<forall>x\<in>set G. p < x"
  shows "sort R = sort L @ E @ sort G"
proof (rule properties_for_sort)
  show "mset (sort L @ E @ sort G) = mset R"
    using assms(1) by simp
  have "sorted E"
    using assms(3) by (induction E) auto
  then show "sorted (sort L @ E @ sort G)"
    using assms(2-4) by (fastforce simp add: sorted_append)
qed

lemma threeWayQuickSort_segment:
  assumes "elems arr = map Some (A @ R @ B)"
    and "low = int (length A)" "high = int (length A) + int (length R) - 1"
  shows "threeWayQuickSort arr low high = arr\<lparr>elems := map Some (A @ sort R @ B)\<rparr>"
  using assms
proof (induction arr low high arbitrary: A R B rule: threeWayQuickSort.induct)
  case (1 arr low high)
  note p = "1.prems"
  show ?case
  proof (cases "low < high")
    case False
    then have "length R \<le> 1"
      using p(2,3) by simp
    then have "sort R = R"
      by (rule sort_short)
    moreover have "threeWayQuickSort arr low high = arr"
      using False by (subst threeWayQuickSort.simps) simp
    ultimately show ?thesis
      using p(1) by (simp add: elems_update_same)
  next
    case True
    then have "R \<noteq> []"
      using p(2,3) by auto
    then obtain L E G where part: "threeWayPartition arr low high =
        (arr\<lparr>elems := map Some (A @ L @ E @ G @ B)\<rparr>,
         low + int (length L), low + int (length L) + int (length E) - 1)"
      and perm: "mset (L @ E @ G) = mset R" and ne: "E \<noteq> []"
      and lt: "\<forall>x\<in>set L. x < hd R" and eq: "\<forall>x\<in>set E. x = hd R"
      and gt: "\<forall>x\<in>set G. hd R < x"
      using threeWayPartition_segment [OF p(1) _ p(2,3)] by blast
    let ?arr1 = "arr\<lparr>elems := map Some (A @ L @ E @ G @ B)\<rparr>"
    let ?lt = "low + int (length L)"
    let ?gt = "low + int (length L) + int (length E) - 1"
    let ?arr2 = "arr\<lparr>elems := map Some (A @ sort L @ E @ G @ B)\<rparr>"
    have "length (L @ E @ G) = length R"
      using perm by (rule mset_eq_length)
    then have size: "length R = length L + length E + length G"
      by simp
    have left: "threeWayQuickSort ?arr1 low (?lt - 1) = ?arr2"
      using "1.IH"(1) [OF True part [symmetric] refl refl, of A L "E @ G @ B"] p(2)
      by simp
    have right: "threeWayQuickSort ?arr2 (?gt + 1) high =
        arr\<lparr>elems := map Some ((A @ sort L @ E) @ sort G @ B)\<rparr>"
      using "1.IH"(2) [OF True part [symmetric] refl refl left [symmetric],
          of "A @ sort L @ E" G B] p(2,3) size
      by simp
    have "sort R = sort L @ E @ sort G"
      using perm lt eq gt by (rule sort_split3)
    moreover have "threeWayQuickSort arr low high = threeWayQuickSort ?arr2 (?gt + 1) high"
      using True part left by (subst threeWayQuickSort.simps) simp
    ultimately show ?thesis
      using right by simp
  qed
qed

section \<open>Whole arrays and sub-ranges\<close>

lemma nondescending_sorted: "nondescending xs = sorted xs"
  by (induction xs rule: nondescending.induct) (auto intro: order_trans)

lemma quickSort_default_sorts:
  "elems arr = map Some xs \<Longrightarrow> quickSort_default arr = arr\<lparr>elems := map Some (sort xs)\<rparr>"
  using quickSort_segment [of arr "[]" xs "[]" 0 "len arr - 1"]
  by (simp add: quickSort_default_def len_def)

lemma medianOfThreeQuickSort_default_sorts:
  "elems arr = map Some xs \<Longrightarrow>
   medianOfThreeQuickSort_default arr = arr\<lparr>elems := map Some (sort xs)\<rparr>"
  using medianOfThreeQuickSort_segment [of arr "[]" xs "[]" 0 "len arr - 1"]
  by (simp add: medianOfThreeQuickSort_default_def len_def)

lemma threeWayQuickSort_default_sorts:
  "elems arr = map Some xs \<Longrightarrow>
   threeWayQuickSort_default arr = arr\<lparr>elems := map Some (sort xs)\<rparr>"
  using threeWayQuickSort_segment [of arr "[]" xs "[]" 0 "len arr - 1"]
  by (simp add: threeWayQuickSort_default_def len_def)

lemma randomizedQuickSort_default_sorts:
  "\<forall>n. 0 \<le> rnd n \<and> rnd n < 1 \<Longrightarrow> elems arr = map Some xs \<Longrightarrow>
   fst (randomizedQuickSort_default rnd (arr, n)) = arr\<lparr>elems := map Some (sort xs)\<rparr>"
  using randomizedQuickSort_segment [of rnd "(arr, n)" "[]" xs "[]" 0 "len arr - 1"]
  by (simp add: randomizedQuickSort_default_def len_def)

lemma array_of_sorted:
  "(array_of xs)\<lparr>elems := map Some (sort xs)\<rparr> = array_of (sort xs)"
  by (simp add: array_of_def)

lemma sort_is_sorted_permutation:
  "mset (sort xs) = mset xs \<and> nondescending (sort xs)"
  by (simp add: nondescending_sorted)

lemma short_range:
  assumes "length (elems arr) \<le> 1"
  shows "\<not> 0 < len arr - 1"
  using assms by (simp add: len_def)

lemma segment_nums:
  assumes "numeric arr" "0 \<le> low" "low \<le> high + 1" "high < len arr"
  shows "elems arr = map Some (take (nat low) (nums arr) @ slice (nums arr) low high
      @ drop (nat (high + 1)) (nums arr))"
    and "low = int (length (take (nat low) (nums arr)))"
    and "high = int (length (take (nat low) (nums arr)))
      + int (length (slice (nums arr) low high)) - 1"
proof -
  have l: "nat (high + 1 - low) + nat low = nat (high + 1)"
    using assms(2,3) by simp
  have "nums arr = take (nat low) (nums arr) @ drop (nat low) (nums arr)"
    by simp
  also have "drop (nat low) (nums arr) =
      slice (nums arr) low high @ drop (nat (high + 1 - low)) (drop (nat low) (nums arr))"
    by (simp only: slice_def append_take_drop_id)
  also have "drop (nat (high + 1 - low)) (drop (nat low) (nums arr)) = drop (nat (high + 1)) (nums arr)"
    by (simp only: drop_drop l)
  finally have "nums arr = take (nat low) (nums arr) @ slice (nums arr) low high
      @ drop (nat (high + 1)) (nums arr)" .
  then show "elems arr = map Some (take (nat low) (nums arr) @ slice (nums arr) low high
      @ drop (nat (high + 1)) (nums arr))"
    using numeric_elems [OF assms(1)] by simp
  show "low = int (length (take (nat low) (nums arr)))"
    using assms(2-4) by (simp add: length_nums len_def)
  show "high = int (length (take (nat low) (nums arr)))
      + int (length (slice (nums arr) low high)) - 1"
    using assms(2-4) by (simp add: length_nums len_def slice_def)
qed

lemma slice_segment:
  "low = int (length A) \<Longrightarrow> high = int (length A) + int (length R) - 1 \<Longrightarrow>
   slice (A @ R @ B) low high = R"
  by (simp add: slice_def)

lemma get_segment_frame:
  assumes "elems arr = map Some (A @ R @ B)" "elems arr' = map Some (A @ R' @ B)"
    and "props arr' = props arr" "length R' = length R"
    and "k < int (length A) \<or> int (length A) + int (length R) \<le> k"
  shows "get arr' k = get arr k"
proof -
  have len': "len arr' = len arr"
    using assms(1,2,4) by (simp add: len_def)
  show ?thesis
  proof (cases "0 \<le> k \<and> k < len arr")
    case False
    then show ?thesis
      by (auto simp add: get_def len' assms(3))
  next
    case True
    then have k: "nat k < length (A @ R @ B)" "nat k < length (A @ R' @ B)"
      using assms(1,4) by (simp_all add: len_def nat_less_iff)
    have "(A @ R' @ B) ! nat k = (A @ R @ B) ! nat k"
      using assms(4,5) True by (auto simp add: nth_append)
    then have "elems arr' ! nat k = elems arr ! nat k"
      using k by (simp only: assms(1,2) nth_map)
    then show ?thesis
      using True by (simp add: get_def len')
  qed
qed

lemma js_lt_le: "js_lt a b \<Longrightarrow> js_le a b"
  by (cases a; cases b) simp_all

lemma partition_segment_nums:
  assumes "numeric arr" "0 \<le> low" "low \<le> high" "high < len arr"
    and "partition arr low high = (arr', p)"
  obtains L G pv where "slice (nums arr') low high = L @ pv # G"
    and "mset (L @ pv # G) = mset (slice (nums arr) low high)"
    and "get arr high = Some pv" and "p = low + int (length L)" and "numeric arr'"
    and "\<forall>x\<in>set L. x \<le> pv" and "\<forall>x\<in>set G. pv < x"
proof -
  define A where "A = take (nat low) (nums arr)"
  define R where "R = slice (nums arr) low high"
  define B where "B = drop (nat (high + 1)) (nums arr)"
  have seg: "elems arr = map Some (A @ R @ B)" "low = int (length A)"
    "high = int (length A) + int (length R) - 1"
    unfolding A_def R_def B_def using assms(1-4) by (intro segment_nums; simp)+
  have "R \<noteq> []"
    using seg(2,3) assms(3) by auto
  then obtain L G where part: "partition arr low high =
        (arr\<lparr>elems := map Some (A @ L @ last R # G @ B)\<rparr>, low + int (length L))"
      and perm: "mset (L @ last R # G) = mset R"
      and le: "\<forall>x\<in>set L. x \<le> last R" and gt: "\<forall>x\<in>set G. last R < x"
    using partition_segment [OF seg(1) _ seg(2,3)] by blast
  have res: "arr' = arr\<lparr>elems := map Some (A @ L @ last R # G @ B)\<rparr>" "p = low + int (length L)"
    using part assms(5) by simp_all
  have e': "elems arr' = map Some (A @ (L @ last R # G) @ B)"
    unfolding res by simp
  have len: "length (L @ last R # G) = length R"
    using perm by (rule mset_eq_length)
  have 1: "slice (nums arr') low high = L @ last R # G"
    unfolding nums_map_Some [OF e'] using seg(2,3) len by (intro slice_segment) simp_all
  have rh: "in_range arr high"
    using assms(2-4) by (simp add: in_range_def)
  have "high = int (length A + (length R - 1))"
    using seg(3) \<open>R \<noteq> []\<close> by (cases R) simp_all
  then have "get arr high = Some (nums arr ! (length A + (length R - 1)))"
    using get_nums [OF assms(1), of "length A + (length R - 1)"] seg(1) \<open>R \<noteq> []\<close>
    by (cases R) simp_all
  also have "nums arr ! (length A + (length R - 1)) = last R"
    using \<open>R \<noteq> []\<close> by (simp add: nums_map_Some [OF seg(1)] last_conv_nth nth_append)
  finally have 3: "get arr high = Some (last R)" .
  have 5: "numeric arr'"
    using e' by (rule numeric_map_Some)
  have 2: "mset (L @ last R # G) = mset (slice (nums arr) low high)"
    using perm R_def by simp
  from 1 2 3 res(2) 5 le gt show thesis
    by (rule that)
qed




section \<open>Invariant of the Hoare partition\<close>

lemma hoare_scan_i_stop:
  "\<not> js_lt (get arr (i + 1)) pivot \<Longrightarrow> hoare_scan_i arr pivot i = i + 1"
  by (subst hoare_scan_i.simps) (simp add: Let_def)

lemma hoare_scan_i_next:
  "js_lt (get arr (i + 1)) pivot \<Longrightarrow> hoare_scan_i arr pivot i = hoare_scan_i arr pivot (i + 1)"
  by (subst hoare_scan_i.simps) (simp add: Let_def)

lemma hoare_scan_j_stop:
  "\<not> js_gt (get arr (j - 1)) pivot \<Longrightarrow> hoare_scan_j arr pivot j = j - 1"
  by (subst hoare_scan_j.simps) (simp add: Let_def)

lemma hoare_scan_j_next:
  "js_gt (get arr (j - 1)) pivot \<Longrightarrow> hoare_scan_j arr pivot j = hoare_scan_j arr pivot (j - 1)"
  by (subst hoare_scan_j.simps) (simp add: Let_def)

lemma hoare_scan_i_spec:
  assumes "i < k" "\<not> js_lt (get arr k) pivot"
  shows "hoare_scan_i arr pivot i \<le> k
    \<and> \<not> js_lt (get arr (hoare_scan_i arr pivot i)) pivot
    \<and> (\<forall>m. i < m \<and> m < hoare_scan_i arr pivot i \<longrightarrow> js_lt (get arr m) pivot)"
  using assms
proof (induction arr pivot i rule: hoare_scan_i.induct)
  case (1 arr pivot i)
  show ?case
  proof (cases "js_lt (get arr (i + 1)) pivot")
    case False
    then show ?thesis
      using "1.prems"(1) by (auto simp add: hoare_scan_i_stop)
  next
    case True
    then have "i + 1 \<noteq> k"
      using "1.prems"(2) by auto
    then have lt: "i + 1 < k"
      using "1.prems"(1) by simp
    note ih = "1.IH" [OF refl True lt "1.prems"(2)]
    have "\<forall>m. i < m \<and> m < hoare_scan_i arr pivot (i + 1) \<longrightarrow> js_lt (get arr m) pivot"
    proof (intro allI impI)
      fix m assume "i < m \<and> m < hoare_scan_i arr pivot (i + 1)"
      then consider "m = i + 1" | "i + 1 < m \<and> m < hoare_scan_i arr pivot (i + 1)"
        by linarith
      then show "js_lt (get arr m) pivot"
        using True ih by cases simp_all
    qed
    then show ?thesis
      using ih by (simp add: hoare_scan_i_next [OF True])
  qed
qed

lemma hoare_scan_j_spec:
  assumes "k < j" "\<not> js_gt (get arr k) pivot"
  shows "k \<le> hoare_scan_j arr pivot j
    \<and> \<not> js_gt (get arr (hoare_scan_j arr pivot j)) pivot
    \<and> (\<forall>m. hoare_scan_j arr pivot j < m \<and> m < j \<longrightarrow> js_gt (get arr m) pivot)"
  using assms
proof (induction arr pivot j rule: hoare_scan_j.induct)
  case (1 arr pivot j)
  show ?case
  proof (cases "js_gt (get arr (j - 1)) pivot")
    case False
    then show ?thesis
      using "1.prems"(1) by (auto simp add: hoare_scan_j_stop)
  next
    case True
    then have "j - 1 \<noteq> k"
      using "1.prems"(2) by auto
    then have lt: "k < j - 1"
      using "1.prems"(1) by simp
    note ih = "1.IH" [OF refl True lt "1.prems"(2)]
    have "\<forall>m. hoare_scan_j arr pivot (j - 1) < m \<and> m < j \<longrightarrow> js_gt (get arr m) pivot"
    proof (intro allI impI)
      fix m assume "hoare_scan_j arr pivot (j - 1) < m \<and> m < j"
      then consider "m = j - 1" | "hoare_scan_j arr pivot (j - 1) < m \<and> m < j - 1"
        by linarith
      then show "js_gt (get arr m) pivot"
        using True ih by cases simp_all
    qed
    then show ?thesis
      using ih by (simp add: hoare_scan_j_next [OF True])
  qed
qed

text \<open>
  The accesses of a scan are the indices it passes, in the order it passes them.
\<close>

lemma hoare_scan_i_log_accesses:
  assumes "i < k" "\<not> js_lt (get arr k) pivot"
  shows "\<exists>new. snd (hoare_scan_i_log arr pivot i seen) = seen @ new
    \<and> list_all (\<lambda>m. i < m \<and> m \<le> k) new"
  using assms
proof (induction arr pivot i seen rule: hoare_scan_i_log.induct)
  case (1 arr pivot i seen)
  show ?case
  proof (cases "js_lt (get arr (i + 1)) pivot")
    case False
    then have "hoare_scan_i_log arr pivot i seen = (i + 1, seen @ [i + 1])"
      by (subst hoare_scan_i_log.simps) (simp add: get_log_def Let_def)
    then show ?thesis
      using "1.prems"(1) by simp
  next
    case True
    then have "i + 1 \<noteq> k"
      using "1.prems"(2) by auto
    then have lt: "i + 1 < k"
      using "1.prems"(1) by simp
    have eq: "hoare_scan_i_log arr pivot i seen = hoare_scan_i_log arr pivot (i + 1) (seen @ [i + 1])"
      using True by (subst hoare_scan_i_log.simps) (simp add: get_log_def Let_def)
    obtain new where new: "snd (hoare_scan_i_log arr pivot (i + 1) (seen @ [i + 1]))
        = (seen @ [i + 1]) @ new" "list_all (\<lambda>m. i + 1 < m \<and> m \<le> k) new"
      using "1.IH" [OF refl refl _ _ lt "1.prems"(2), of "get arr (i + 1)" "seen @ [i + 1]"] True
      by (auto simp add: get_log_def)
    have "list_all (\<lambda>m. i < m \<and> m \<le> k) ((i + 1) # new)"
      using new(2) lt by (auto simp add: list_all_iff)
    then show ?thesis
      using new(1) eq by (intro exI [of _ "(i + 1) # new"]) simp
  qed
qed

lemma hoare_scan_j_log_accesses:
  assumes "k < j" "\<not> js_gt (get arr k) pivot"
  shows "\<exists>new. snd (hoare_scan_j_log arr pivot j seen) = seen @ new
    \<and> list_all (\<lambda>m. k \<le> m \<and> m < j) new"
  using assms
proof (induction arr pivot j seen rule: hoare_scan_j_log.induct)
  case (1 arr pivot j seen)
  show ?case
  proof (cases "js_gt (get arr (j - 1)) pivot")
    case False
    then have "hoare_scan_j_log arr pivot j seen = (j - 1, seen @ [j - 1])"
      by (subst hoare_scan_j_log.simps) (simp add: get_log_def Let_def)
    then show ?thesis
      using "1.prems"(1) by simp
  next
    case True
    then have "j - 1 \<noteq> k"
      using "1.prems"(2) by auto
    then have lt: "k < j - 1"
      using "1.prems"(1) by simp
    have eq: "hoare_scan_j_log arr pivot j seen = hoare_scan_j_log arr pivot (j - 1) (seen @ [j - 1])"
      using True by (subst hoare_scan_j_log.simps) (simp add: get_log_def Let_def)
    obtain new where new: "snd (hoare_scan_j_log arr pivot (j - 1) (seen @ [j - 1]))
        = (seen @ [j - 1]) @ new" "list_all (\<lambda>m. k \<le> m \<and> m < j - 1) new"
      using "1.IH" [OF refl refl _ _ lt "1.prems"(2), of "get arr (j - 1)" "seen @ [j - 1]"] True
      by (auto simp add: get_log_def)
    have "list_all (\<lambda>m. k \<le> m \<and> m < j) ((j - 1) # new)"
      using new(2) lt by (auto simp add: list_all_iff)
    then show ?thesis
      using new(1) eq by (intro exI [of _ "(j - 1) # new"]) simp
  qed
qed

lemma hoare_step:
  assumes inv: "hoare_inv arr pv low high i j"
    and i1: "i1 = hoare_scan_i arr (Some pv) i" and j1: "j1 = hoare_scan_j arr (Some pv) j"
  shows "i < i1" and "i1 \<le> high" and "low \<le> j1" and "j1 < j"
    and "j1 \<le> i1 \<Longrightarrow> \<forall>m. low \<le> m \<and> m \<le> j1 \<longrightarrow> js_le (get arr m) (Some pv)"
    and "\<forall>m. j1 < m \<and> m \<le> high \<longrightarrow> js_le (Some pv) (get arr m)"
    and "i1 < j1 \<Longrightarrow> hoare_inv (swap arr i1 j1) pv low high i1 j1"
    and "j1 \<le> i1 \<Longrightarrow> low < high \<Longrightarrow> j1 < high"
proof -
  have b: "0 \<le> low" "high < len arr" "numeric arr" "low - 1 \<le> i" "i < j" "j \<le> high + 1"
    and le: "\<forall>m. low \<le> m \<and> m \<le> i \<longrightarrow> js_le (get arr m) (Some pv)"
    and ge: "\<forall>m. j \<le> m \<and> m \<le> high \<longrightarrow> js_le (Some pv) (get arr m)"
    and first: "j \<le> high \<or> (i = low - 1 \<and> get arr low = Some pv)"
    using inv by (simp_all add: hoare_inv_def)
  obtain ki where ki: "i < ki" "ki \<le> high" "\<not> js_lt (get arr ki) (Some pv)"
    using inv by (auto simp add: hoare_inv_def)
  obtain kj where kj: "low \<le> kj" "kj < j" "\<not> js_gt (get arr kj) (Some pv)"
    using inv by (auto simp add: hoare_inv_def)
  have si: "i1 \<le> ki" "\<not> js_lt (get arr i1) (Some pv)"
    "\<forall>m. i < m \<and> m < i1 \<longrightarrow> js_lt (get arr m) (Some pv)"
    using hoare_scan_i_spec [OF ki(1,3)] by (simp_all add: i1)
  have sj: "kj \<le> j1" "\<not> js_gt (get arr j1) (Some pv)"
    "\<forall>m. j1 < m \<and> m < j \<longrightarrow> js_gt (get arr m) (Some pv)"
    using hoare_scan_j_spec [OF kj(2,3)] by (simp_all add: j1)
  show 1: "i < i1"
    unfolding i1 by (rule hoare_scan_i_greater)
  show 2: "i1 \<le> high"
    using si(1) ki(2) by simp
  show 3: "low \<le> j1"
    using sj(1) kj(1) by simp
  show 4: "j1 < j"
    unfolding j1 by (rule hoare_scan_j_less)
  have ri: "in_range arr i1" and rj: "in_range arr j1"
    using b 1 2 3 4 by (simp_all add: in_range_def)
  obtain a where a: "get arr i1 = Some a"
    using numeric_get [OF b(3) ri] by blast
  obtain c where c: "get arr j1 = Some c"
    using numeric_get [OF b(3) rj] by blast
  have pi: "js_le (Some pv) (get arr i1)"
    using si(2) by (simp add: a)
  have pj: "js_le (get arr j1) (Some pv)"
    using sj(2) by (simp add: c js_gt_def)
  have A: "js_le (get arr m) (Some pv)" if "low \<le> m" "m < i1" for m
  proof (cases "m \<le> i")
    case True
    then show ?thesis using le that(1) by simp
  next
    case False
    then have "js_lt (get arr m) (Some pv)" using si(3) that(2) by simp
    then show ?thesis by (rule js_lt_le)
  qed
  have B: "js_le (Some pv) (get arr m)" if "j1 < m" "m \<le> high" for m
  proof (cases "j \<le> m")
    case True
    then show ?thesis using ge that(2) by simp
  next
    case False
    then have "js_lt (Some pv) (get arr m)" using sj(3) that(1) by (simp add: js_gt_def)
    then show ?thesis by (rule js_lt_le)
  qed
  show "\<forall>m. low \<le> m \<and> m \<le> j1 \<longrightarrow> js_le (get arr m) (Some pv)" if "j1 \<le> i1"
  proof (intro allI impI)
    fix m assume m: "low \<le> m \<and> m \<le> j1"
    show "js_le (get arr m) (Some pv)"
    proof (cases "m < i1")
      case True
      then show ?thesis using A m by simp
    next
      case False
      then have "m = j1" using m that by simp
      then show ?thesis using pj by simp
    qed
  qed
  show "\<forall>m. j1 < m \<and> m \<le> high \<longrightarrow> js_le (Some pv) (get arr m)"
    using B by simp
  show "hoare_inv (swap arr i1 j1) pv low high i1 j1" if "i1 < j1"
  proof -
    let ?arr1 = "swap arr i1 j1"
    note gs = get_swap [OF ri rj]
    have "high < len ?arr1"
      using b(2) by (simp add: len_swap [OF ri rj])
    moreover have "numeric ?arr1"
      using b(3) by (simp add: numeric_swap [OF ri rj])
    moreover have "low - 1 \<le> i1"
      using b(4) 1 by simp
    moreover have "j1 \<le> high + 1"
      using b(6) 4 by simp
    moreover have "\<exists>k. i1 < k \<and> k \<le> high \<and> \<not> js_lt (get ?arr1 k) (Some pv)"
      using that 4 b(6) si(2) by (intro exI [of _ j1]) (simp add: gs)
    moreover have "\<exists>k. low \<le> k \<and> k < j1 \<and> \<not> js_gt (get ?arr1 k) (Some pv)"
      using that 1 b(4) sj(2) by (intro exI [of _ i1]) (simp add: gs)
    moreover have "\<forall>m. low \<le> m \<and> m \<le> i1 \<longrightarrow> js_le (get ?arr1 m) (Some pv)"
    proof (intro allI impI)
      fix m assume m: "low \<le> m \<and> m \<le> i1"
      show "js_le (get ?arr1 m) (Some pv)"
      proof (cases "m = i1")
        case True
        then show ?thesis using pj that by (simp add: gs)
      next
        case False
        then show ?thesis using A [of m] m that by (simp add: gs)
      qed
    qed
    moreover have "\<forall>m. j1 \<le> m \<and> m \<le> high \<longrightarrow> js_le (Some pv) (get ?arr1 m)"
    proof (intro allI impI)
      fix m assume m: "j1 \<le> m \<and> m \<le> high"
      show "js_le (Some pv) (get ?arr1 m)"
      proof (cases "m = j1")
        case True
        then show ?thesis using pi by (simp add: gs)
      next
        case False
        then show ?thesis using B [of m] m that by (simp add: gs)
      qed
    qed
    moreover have "j1 \<le> high"
      using b(6) 4 by simp
    ultimately show ?thesis
      using b(1) that by (simp add: hoare_inv_def)
  qed
  show "j1 < high" if "j1 \<le> i1" "low < high"
  proof (cases "j \<le> high")
    case True
    then show ?thesis using 4 by simp
  next
    case False
    then have f: "i = low - 1" "get arr low = Some pv"
      using first by simp_all
    have "\<not> js_lt (get arr low) (Some pv)"
      by (simp add: f(2))
    then have "i1 \<le> low"
      using hoare_scan_i_spec [of i low arr "Some pv"] f(1) by (simp add: i1)
    then show ?thesis
      using that by simp
  qed
qed

lemma hoare_loop_stop:
  "hoare_scan_j arr pivot j \<le> hoare_scan_i arr pivot i \<Longrightarrow>
   hoare_loop arr pivot i j = (arr, hoare_scan_j arr pivot j)"
  by (subst hoare_loop.simps) (simp add: Let_def)

lemma hoare_loop_swap:
  "\<not> hoare_scan_j arr pivot j \<le> hoare_scan_i arr pivot i \<Longrightarrow>
   hoare_loop arr pivot i j =
     hoare_loop (swap arr (hoare_scan_i arr pivot i) (hoare_scan_j arr pivot j)) pivot
       (hoare_scan_i arr pivot i) (hoare_scan_j arr pivot j)"
  by (subst hoare_loop.simps) (simp add: Let_def)

lemma hoare_loop_inv:
  assumes "hoare_inv arr pv low high i j" "pivot = Some pv"
    and "hoare_loop arr pivot i j = (arr', r)"
  shows "len arr' = len arr \<and> props arr' = props arr
    \<and> mset (elems arr') = mset (elems arr)
    \<and> (\<forall>m. m < low \<or> high < m \<longrightarrow> get arr' m = get arr m)
    \<and> low \<le> r \<and> r < j \<and> (low < high \<longrightarrow> r < high)
    \<and> (\<forall>m. low \<le> m \<and> m \<le> r \<longrightarrow> js_le (get arr' m) (Some pv))
    \<and> (\<forall>m. r < m \<and> m \<le> high \<longrightarrow> js_le (Some pv) (get arr' m))"
  using assms
proof (induction arr pivot i j arbitrary: arr' r rule: hoare_loop.induct)
  case (1 arr pivot i j)
  define i1 where "i1 = hoare_scan_i arr pivot i"
  define j1 where "j1 = hoare_scan_j arr pivot j"
  note p = "1.prems"
  note st = hoare_step [OF p(1) i1_def [unfolded p(2)] j1_def [unfolded p(2)]]
  show ?case
  proof (cases "j1 \<le> i1")
    case True
    then have "hoare_loop arr pivot i j = (arr, j1)"
      unfolding i1_def j1_def by (rule hoare_loop_stop)
    with p(3) have "arr' = arr" "r = j1"
      by simp_all
    then show ?thesis
      using st(3,4,6) st(5) [OF True] st(8) [OF True] by simp
  next
    case False
    let ?arr1 = "swap arr i1 j1"
    have inv1: "hoare_inv ?arr1 pv low high i1 j1"
      using st(7) False by simp
    have "hoare_loop arr pivot i j = hoare_loop ?arr1 pivot i1 j1"
      using False unfolding i1_def j1_def by (rule hoare_loop_swap)
    with p(3) have eq: "hoare_loop ?arr1 pivot i1 j1 = (arr', r)"
      by simp
    have b: "0 \<le> low" "high < len arr" "low - 1 \<le> i" "j \<le> high + 1"
      using p(1) by (simp_all add: hoare_inv_def)
    have ri: "in_range arr i1" and rj: "in_range arr j1"
      using b st(1-4) False by (simp_all add: in_range_def)
    note ih = "1.IH" [OF i1_def j1_def False inv1 p(2) eq]
    have "\<forall>m. m < low \<or> high < m \<longrightarrow> get ?arr1 m = get arr m"
      using b st(1-4) False by (simp add: get_swap [OF ri rj])
    then show ?thesis
      using ih st(4) by (simp add: len_swap props_swap mset_swap_elems ri rj)
  qed
qed

lemma hoare_inv_initial:
  assumes "numeric arr" "0 \<le> low" "low \<le> high" "high < len arr"
    and "get arr low = Some pv"
  shows "hoare_inv arr pv low high (low - 1) (high + 1)"
proof -
  have "\<exists>k. low - 1 < k \<and> k \<le> high \<and> \<not> js_lt (get arr k) (Some pv)"
    using assms(3,5) by (intro exI [of _ low]) simp
  moreover have "\<exists>k. low \<le> k \<and> k < high + 1 \<and> \<not> js_gt (get arr k) (Some pv)"
    using assms(3,5) by (intro exI [of _ low]) (simp add: js_gt_def)
  moreover have "\<forall>m. low \<le> m \<and> m \<le> low - 1 \<longrightarrow> js_le (get arr m) (Some pv)"
    by auto
  moreover have "\<forall>m. high + 1 \<le> m \<and> m \<le> high \<longrightarrow> js_le (Some pv) (get arr m)"
    by auto
  ultimately show ?thesis
    using assms by (simp add: hoare_inv_def)
qed

lemma hoarePartition_spec:
  assumes "numeric arr" "0 \<le> low" "low \<le> high" "high < len arr"
    and "hoarePartition arr low high = (arr', r)"
  shows "len arr' = len arr \<and> props arr' = props arr
    \<and> mset (elems arr') = mset (elems arr)
    \<and> (\<forall>m. m < low \<or> high < m \<longrightarrow> get arr' m = get arr m)
    \<and> low \<le> r \<and> r \<le> high \<and> (low < high \<longrightarrow> r < high)
    \<and> (\<forall>m. low \<le> m \<and> m \<le> r \<longrightarrow> js_le (get arr' m) (get arr low))
    \<and> (\<forall>m. r < m \<and> m \<le> high \<longrightarrow> js_le (get arr low) (get arr' m))"
proof -
  have rl: "in_range arr low"
    using assms(2-4) by (simp add: in_range_def)
  obtain pv where pv: "get arr low = Some pv"
    using numeric_get [OF assms(1) rl] by blast
  have loop: "hoare_loop arr (get arr low) (low - 1) (high + 1) = (arr', r)"
    using assms(5) by (simp add: hoarePartition_def Let_def)
  show ?thesis
    using hoare_loop_inv [OF hoare_inv_initial [OF assms(1-4) pv] pv loop]
    by (simp add: pv)
qed

lemma frame_slice_mset:
  assumes "numeric arr" "0 \<le> low" "low \<le> high" "high < len arr"
    and "len arr' = len arr" "props arr' = props arr"
    and "mset (elems arr') = mset (elems arr)"
    and "\<forall>k. k < low \<or> high < k \<longrightarrow> get arr' k = get arr k"
  shows "numeric arr' \<and> mset (slice (nums arr') low high) = mset (slice (nums arr) low high)"
proof -
  define A where "A = take (nat low) (nums arr)"
  define R where "R = slice (nums arr) low high"
  define B where "B = drop (nat (high + 1)) (nums arr)"
  have seg: "elems arr = map Some (A @ R @ B)" "low = int (length A)"
    "high = int (length A) + int (length R) - 1"
    unfolding A_def R_def B_def using assms(1-4) by (intro segment_nums; simp)+
  obtain M where M: "arr' = arr\<lparr>elems := map Some (A @ M @ B)\<rparr>"
    "mset M = mset R" "length M = length R"
    using frame_segment [OF seg assms(5-8)] by metis
  have e': "elems arr' = map Some (A @ M @ B)"
    unfolding M(1) by simp
  have "slice (nums arr') low high = M"
    unfolding nums_map_Some [OF e'] using seg(2,3) M(3) by (intro slice_segment) simp_all
  moreover have "numeric arr'"
    using e' by (rule numeric_map_Some)
  ultimately show ?thesis
    using M(2) R_def by simp
qed

lemma swap_log_accesses: "snd (swap_log arr i j seen) = seen @ [j, i, i, j]"
  by (simp add: swap_log_def get_log_def put_log_def Let_def)

lemma hoare_loop_log_accesses:
  assumes "hoare_inv arr pv low high i j" "pivot = Some pv"
  shows "\<exists>new. snd (hoare_loop_log arr pivot i j seen) = seen @ new
    \<and> list_all (\<lambda>m. low \<le> m \<and> m \<le> high) new"
  using assms
proof (induction arr pivot i j seen rule: hoare_loop_log.induct)
  case (1 arr pivot i j seen)
  note p = "1.prems"
  obtain i1 seen1 where si: "hoare_scan_i_log arr pivot i seen = (i1, seen1)"
    by (cases "hoare_scan_i_log arr pivot i seen") simp
  obtain j1 seen2 where sj: "hoare_scan_j_log arr pivot j seen1 = (j1, seen2)"
    by (cases "hoare_scan_j_log arr pivot j seen1") simp
  obtain arr1 seen3 where sw: "swap_log arr i1 j1 seen2 = (arr1, seen3)"
    by (cases "swap_log arr i1 j1 seen2") simp
  have i1: "i1 = hoare_scan_i arr (Some pv) i"
    using hoare_scan_i_log_result [of arr pivot i seen] si p(2) by simp
  have j1: "j1 = hoare_scan_j arr (Some pv) j"
    using hoare_scan_j_log_result [of arr pivot j seen1] sj p(2) by simp
  have arr1: "arr1 = swap arr i1 j1"
    using swap_log_result [of arr i1 j1 seen2] sw by simp
  note st = hoare_step [OF p(1) i1 j1]
  have b: "low - 1 \<le> i" "j \<le> high + 1"
    using p(1) by (simp_all add: hoare_inv_def)
  obtain ki where ki: "i < ki" "ki \<le> high" "\<not> js_lt (get arr ki) pivot"
    using p by (auto simp add: hoare_inv_def)
  obtain kj where kj: "low \<le> kj" "kj < j" "\<not> js_gt (get arr kj) pivot"
    using p by (auto simp add: hoare_inv_def)
  obtain new1 where new1: "seen1 = seen @ new1" "list_all (\<lambda>m. i < m \<and> m \<le> ki) new1"
    using hoare_scan_i_log_accesses [OF ki(1,3), of seen] si by auto
  obtain new2 where new2: "seen2 = seen1 @ new2" "list_all (\<lambda>m. kj \<le> m \<and> m < j) new2"
    using hoare_scan_j_log_accesses [OF kj(2,3), of seen1] sj by auto
  have r1: "list_all (\<lambda>m. low \<le> m \<and> m \<le> high) new1"
    using new1(2) b(1) ki(2) by (auto simp add: list_all_iff)
  have r2: "list_all (\<lambda>m. low \<le> m \<and> m \<le> high) new2"
    using new2(2) b(2) kj(1) by (auto simp add: list_all_iff)
  show ?case
  proof (cases "i1 \<ge> j1")
    case True
    then have "snd (hoare_loop_log arr pivot i j seen) = seen2"
      by (subst hoare_loop_log.simps) (simp add: si sj)
    then have "snd (hoare_loop_log arr pivot i j seen) = seen @ (new1 @ new2)"
      by (simp add: new1(1) new2(1))
    moreover have "list_all (\<lambda>m. low \<le> m \<and> m \<le> high) (new1 @ new2)"
      using r1 r2 by simp
    ultimately show ?thesis
      by blast
  next
    case False
    have inv1: "hoare_inv arr1 pv low high i1 j1"
      unfolding arr1 using st(7) False by simp
    obtain new3 where new3: "snd (hoare_loop_log arr1 pivot i1 j1 seen3) = seen3 @ new3"
      "list_all (\<lambda>m. low \<le> m \<and> m \<le> high) new3"
      using "1.IH" [OF si [symmetric] refl sj [symmetric] refl False sw [symmetric] refl inv1 p(2)]
      by auto
    have s3: "seen3 = seen2 @ [j1, i1, i1, j1]"
      using swap_log_accesses [of arr i1 j1 seen2] sw by simp
    have "snd (hoare_loop_log arr pivot i j seen) = seen3 @ new3"
      using False new3(1)
      by (subst hoare_loop_log.simps) (simp add: si sj sw)
    then have "snd (hoare_loop_log arr pivot i j seen)
        = seen @ (new1 @ new2 @ [j1, i1, i1, j1] @ new3)"
      by (simp add: s3 new1(1) new2(1))
    moreover have "list_all (\<lambda>m. low \<le> m \<and> m \<le> high) (new1 @ new2 @ [j1, i1, i1, j1] @ new3)"
      using r1 r2 new3(2) st(1-4) b False by simp
    ultimately show ?thesis
      by blast
  qed
qed

lemma get_slice_nums:
  assumes "numeric arr" "0 \<le> low" "high < len arr" "k < nat (high + 1 - low)"
  shows "get arr (low + int k) = Some (slice (nums arr) low high ! k)"
proof -
  have "nat low + k < length (elems arr)"
    using assms(2-4) by (simp add: len_def)
  then have "get arr (int (nat low + k)) = Some (nums arr ! (nat low + k))"
    by (rule get_nums [OF assms(1)])
  moreover have "slice (nums arr) low high ! k = nums arr ! (nat low + k)"
    using assms(2-4) by (simp add: slice_def length_nums len_def)
  ultimately show ?thesis
    using assms(2) by simp
qed

lemma length_slice:
  "0 \<le> low \<Longrightarrow> high < len arr \<Longrightarrow> length (slice (nums arr) low high) = nat (high + 1 - low)"
  by (simp add: slice_def length_nums len_def)

lemma sorted_last_max:
  fixes xs :: "'a::linorder list"
  assumes "sorted xs" "x \<in> set xs" "\<forall>y\<in>set xs. y \<le> x"
  shows "xs ! (length xs - 1) = x"
proof -
  obtain i where i: "i < length xs" "xs ! i = x"
    using assms(2) by (auto simp add: in_set_conv_nth)
  have "xs ! i \<le> xs ! (length xs - 1)"
    using assms(1) i(1) by (intro sorted_nth_mono) simp_all
  moreover have "xs ! (length xs - 1) \<in> set xs"
    using i(1) by simp
  then have "xs ! (length xs - 1) \<le> x"
    using assms(3) by simp
  ultimately show ?thesis
    using i(2) by simp
qed

lemma sorted_hd_least:
  fixes xs :: "'a::linorder list"
  assumes "sorted xs" "x \<in> set xs" "\<forall>y\<in>set xs. x \<le> y"
  shows "xs ! 0 = x"
proof -
  obtain y ys where xs: "xs = y # ys"
    using assms(2) by (cases xs) auto
  have "y \<le> x"
    using assms(1,2) xs by auto
  moreover have "x \<le> y"
    using assms(3) xs by simp
  ultimately show ?thesis
    using xs by simp
qed

lemma sort_two_parts:
  fixes Lft :: "'a::linorder list"
  assumes "\<forall>x\<in>set Lft. x \<le> pv" "\<forall>x\<in>set Rgt. pv \<le> x" "pv \<in> set (Lft @ Rgt)" "Lft \<noteq> []"
  shows "sort (Lft @ Rgt) ! (length Lft - 1) = pv \<or> sort (Lft @ Rgt) ! length Lft = pv"
proof -
  have "sorted (sort Lft @ sort Rgt)"
    using assms(1,2) by (auto simp add: sorted_append intro: order_trans)
  moreover have "mset (sort Lft @ sort Rgt) = mset (Lft @ Rgt)"
    by simp
  ultimately have s: "sort (Lft @ Rgt) = sort Lft @ sort Rgt"
    by (intro properties_for_sort)
  show ?thesis
  proof (cases "pv \<in> set Lft")
    case True
    have "sort Lft ! (length (sort Lft) - 1) = pv"
      using True assms(1) by (intro sorted_last_max) simp_all
    then show ?thesis
      using assms(4) by (simp add: s nth_append)
  next
    case False
    then have "pv \<in> set Rgt"
      using assms(3) by simp
    then have "sort Rgt ! 0 = pv"
      using assms(2) by (intro sorted_hd_least) simp_all
    then show ?thesis
      by (simp add: s nth_append)
  qed
qed

text \<open>
  What holds of the pivot after \<^verbatim>\<open>hoarePartition(arr, low, high)\<close> has returned \<open>j\<close>, for
  an array of numbers and bounds \<open>0 \<le> low < high < length\<close>: the pivot (the original
  \<open>arr[low]\<close>) is still at some index of \<open>[low, high]\<close>, and sorting the range puts the
  pivot value at offset \<open>j - low\<close> or at offset \<open>j + 1 - low\<close>.
\<close>

lemma hoarePartition_pivot_position:
  assumes "numeric arr" "0 \<le> low" "low < high" "high < len arr"
    and "hoarePartition arr low high = (arr', j)"
  shows "numeric arr'
    \<and> (\<exists>k. low \<le> k \<and> k \<le> high \<and> get arr' k = get arr low)
    \<and> (Some (sort (slice (nums arr') low high) ! nat (j - low)) = get arr low
       \<or> Some (sort (slice (nums arr') low high) ! nat (j + 1 - low)) = get arr low)"
proof -
  have le: "low \<le> high"
    using assms(3) by simp
  have spec: "len arr' = len arr" "props arr' = props arr"
    "mset (elems arr') = mset (elems arr)"
    "\<forall>m. m < low \<or> high < m \<longrightarrow> get arr' m = get arr m"
    "low \<le> j" "j < high"
    "\<forall>m. low \<le> m \<and> m \<le> j \<longrightarrow> js_le (get arr' m) (get arr low)"
    "\<forall>m. j < m \<and> m \<le> high \<longrightarrow> js_le (get arr low) (get arr' m)"
    using hoarePartition_spec [OF assms(1,2) le assms(4,5)] assms(3) by simp_all
  define S where "S = slice (nums arr) low high"
  define S' where "S' = slice (nums arr') low high"
  have n': "numeric arr'" and perm: "mset S' = mset S"
    using frame_slice_mset [OF assms(1,2) le assms(4) spec(1-4)] by (simp_all add: S_def S'_def)
  have h': "high < len arr'"
    using assms(4) spec(1) by simp
  have lenS: "length S = nat (high + 1 - low)" "length S' = nat (high + 1 - low)"
    unfolding S_def S'_def using assms(2,4) h' by (simp_all add: length_slice)
  have at: "get arr (low + int k) = Some (S ! k)" if "k < nat (high + 1 - low)" for k
    unfolding S_def using assms(1,2,4) that by (rule get_slice_nums)
  have at': "get arr' (low + int k) = Some (S' ! k)" if "k < nat (high + 1 - low)" for k
    unfolding S'_def using n' assms(2) h' that by (rule get_slice_nums)
  define pv where "pv = S ! 0"
  have pv: "get arr low = Some pv"
    using at [of 0] le by (simp add: pv_def)
  have "pv \<in> set S"
    unfolding pv_def using lenS(1) le by (intro nth_mem) simp
  then have mem: "pv \<in> set S'"
    using perm by (metis mset_eq_setD)
  then obtain i where i: "i < length S'" "S' ! i = pv"
    by (auto simp add: in_set_conv_nth)
  have 1: "\<exists>k. low \<le> k \<and> k \<le> high \<and> get arr' k = get arr low"
    using i at' [of i] lenS(2) pv by (intro exI [of _ "low + int i"]) auto
  define n where "n = nat (j + 1 - low)"
  have n: "0 < n" "n < length S'" "int n = j + 1 - low"
    using spec(5,6) lenS(2) by (simp_all add: n_def)
  define Lft where "Lft = take n S'"
  define Rgt where "Rgt = drop n S'"
  have split: "S' = Lft @ Rgt"
    by (simp add: Lft_def Rgt_def)
  have lenL: "length Lft = n"
    using n(2) by (simp add: Lft_def)
  have L: "\<forall>x\<in>set Lft. x \<le> pv"
  proof
    fix x assume "x \<in> set Lft"
    then obtain k where "k < length Lft" "x = Lft ! k"
      by (auto simp add: in_set_conv_nth)
    then have k: "k < n" "x = S' ! k"
      using lenL by (simp_all add: Lft_def)
    have "js_le (get arr' (low + int k)) (get arr low)"
      using spec(7) k(1) n(3) by simp
    then show "x \<le> pv"
      using at' [of k] k n(2) lenS(2) pv by simp
  qed
  have R: "\<forall>x\<in>set Rgt. pv \<le> x"
  proof
    fix x assume "x \<in> set Rgt"
    then obtain k where "k < length Rgt" "x = Rgt ! k"
      by (auto simp add: in_set_conv_nth)
    then have k: "n + k < length S'" "x = S' ! (n + k)"
      using n(2) by (simp_all add: Rgt_def)
    have "j < low + int (n + k) \<and> low + int (n + k) \<le> high"
      using k(1) n(3) lenS(2) by simp
    then have "js_le (get arr low) (get arr' (low + int (n + k)))"
      using spec(8) by blast
    then show "pv \<le> x"
      using at' [of "n + k"] k lenS(2) pv by simp
  qed
  have "Lft \<noteq> []"
    using lenL n(1) by auto
  then have "sort (Lft @ Rgt) ! (length Lft - 1) = pv \<or> sort (Lft @ Rgt) ! length Lft = pv"
    using L R mem by (intro sort_two_parts) (simp_all add: split [symmetric])
  moreover have "length Lft - 1 = nat (j - low)" "length Lft = nat (j + 1 - low)"
    using spec(5) by (simp_all add: lenL n_def)
  ultimately have 2: "Some (sort S' ! nat (j - low)) = get arr low
       \<or> Some (sort S' ! nat (j + 1 - low)) = get arr low"
    by (simp add: split [symmetric] pv)
  from n' 1 2 show ?thesis
    unfolding S'_def by (intro conjI)
qed

lemma hoarePartition_pivot_position_example:
  "numeric (array_of [2, 3, 1 :: int]) \<and> (0::int) \<le> 0 \<and> (0::int) < 2
    \<and> 2 < len (array_of [2, 3, 1 :: int])
    \<and> hoarePartition (array_of [2, 3, 1 :: int]) 0 2 = (array_of [1, 3, 2], 0)
    \<and> numeric (array_of [1, 3, 2 :: int])
    \<and> (\<exists>k. 0 \<le> k \<and> k \<le> 2 \<and> get (array_of [1, 3, 2 :: int]) k = get (array_of [2, 3, 1]) 0)
    \<and> (Some (sort (slice (nums (array_of [1, 3, 2 :: int])) 0 2) ! nat (0 - 0))
          = get (array_of [2, 3, 1]) 0
       \<or> Some (sort (slice (nums (array_of [1, 3, 2 :: int])) 0 2) ! nat (0 + 1 - 0))
          = get (array_of [2, 3, 1]) 0)"
proof -
  have a: "numeric (array_of [2, 3, 1 :: int])"
    by (simp add: numeric_def array_of_def)
  have b: "(0::int) \<le> 0" "(0::int) < 2"
    by simp_all
  have c: "2 < len (array_of [2, 3, 1 :: int])"
    by (simp add: len_def array_of_def)
  have e: "hoarePartition (array_of [2, 3, 1 :: int]) 0 2 = (array_of [1, 3, 2], 0)"
    by code_simp
  show ?thesis
    using a b c e hoarePartition_pivot_position [OF a b c e] by blast
qed

section \<open>The sortedness check\<close>

lemma isSorted_loop_iff:
  "isSorted_loop arr i \<longleftrightarrow>
     (\<forall>k. i \<le> k \<and> k < len arr \<longrightarrow> \<not> js_lt (get arr k) (get arr (k - 1)))"
proof (induction arr i rule: isSorted_loop.induct)
  case (1 arr i)
  show ?case
  proof (cases "i < len arr")
    case False
    then show ?thesis
      by (subst isSorted_loop.simps) auto
  next
    case True
    show ?thesis
    proof (cases "js_lt (get arr i) (get arr (i - 1))")
      case bad: True
      then have "\<not> isSorted_loop arr i"
        using True by (subst isSorted_loop.simps) simp
      then show ?thesis
        using True bad by auto
    next
      case ok: False
      have "isSorted_loop arr i = isSorted_loop arr (i + 1)"
        using True ok by (subst isSorted_loop.simps) simp
      also have "\<dots> \<longleftrightarrow>
          (\<forall>k. i + 1 \<le> k \<and> k < len arr \<longrightarrow> \<not> js_lt (get arr k) (get arr (k - 1)))"
        using True ok by (rule "1.IH")
      also have "\<dots> \<longleftrightarrow>
          (\<forall>k. i \<le> k \<and> k < len arr \<longrightarrow> \<not> js_lt (get arr k) (get arr (k - 1)))"
      proof
        assume a: "\<forall>k. i + 1 \<le> k \<and> k < len arr \<longrightarrow> \<not> js_lt (get arr k) (get arr (k - 1))"
        show "\<forall>k. i \<le> k \<and> k < len arr \<longrightarrow> \<not> js_lt (get arr k) (get arr (k - 1))"
        proof (intro allI impI)
          fix k assume "i \<le> k \<and> k < len arr"
          then consider "k = i" | "i + 1 \<le> k \<and> k < len arr" by linarith
          then show "\<not> js_lt (get arr k) (get arr (k - 1))"
            using ok a by cases simp_all
        qed
      next
        assume "\<forall>k. i \<le> k \<and> k < len arr \<longrightarrow> \<not> js_lt (get arr k) (get arr (k - 1))"
        then show "\<forall>k. i + 1 \<le> k \<and> k < len arr \<longrightarrow> \<not> js_lt (get arr k) (get arr (k - 1))"
          by simp
      qed
      finally show ?thesis .
    qed
  qed
qed

lemma isSorted_array_of: "isSorted (array_of ys) = nondescending ys"
proof -
  let ?arr = "array_of ys"
  have n: "numeric ?arr" and l: "length (elems ?arr) = length ys" and ny: "nums ?arr = ys"
    by (simp_all add: numeric_def array_of_def nums_def comp_def)
  have at: "get ?arr (int k) = Some (ys ! k)" if "k < length ys" for k
    using get_nums [OF n, of k] that by (simp add: l ny)
  have "isSorted ?arr \<longleftrightarrow>
      (\<forall>k. 1 \<le> k \<and> k < len ?arr \<longrightarrow> \<not> js_lt (get ?arr k) (get ?arr (k - 1)))"
    by (simp add: isSorted_def isSorted_loop_iff)
  also have "\<dots> \<longleftrightarrow> (\<forall>i. Suc i < length ys \<longrightarrow> ys ! i \<le> ys ! Suc i)"
  proof
    assume a: "\<forall>k. 1 \<le> k \<and> k < len ?arr \<longrightarrow> \<not> js_lt (get ?arr k) (get ?arr (k - 1))"
    show "\<forall>i. Suc i < length ys \<longrightarrow> ys ! i \<le> ys ! Suc i"
    proof (intro allI impI)
      fix i assume i: "Suc i < length ys"
      have "1 \<le> int (Suc i) \<and> int (Suc i) < len ?arr"
        using i by (simp add: len_def l)
      then have "\<not> js_lt (get ?arr (int (Suc i))) (get ?arr (int (Suc i) - 1))"
        using a by blast
      then show "ys ! i \<le> ys ! Suc i"
        using at [of "Suc i"] at [of i] i by simp
    qed
  next
    assume a: "\<forall>i. Suc i < length ys \<longrightarrow> ys ! i \<le> ys ! Suc i"
    show "\<forall>k. 1 \<le> k \<and> k < len ?arr \<longrightarrow> \<not> js_lt (get ?arr k) (get ?arr (k - 1))"
    proof (intro allI impI)
      fix k assume k: "1 \<le> k \<and> k < len ?arr"
      define i where "i = nat (k - 1)"
      have i: "k = int (Suc i)" "Suc i < length ys"
        using k unfolding i_def len_def l by linarith+
      have "ys ! i \<le> ys ! Suc i"
        using a i(2) by simp
      then show "\<not> js_lt (get ?arr k) (get ?arr (k - 1))"
        using at [of "Suc i"] at [of i] i by simp
    qed
  qed
  also have "\<dots> \<longleftrightarrow> nondescending ys"
    by (simp add: nondescending_sorted sorted_iff_nth_Suc)
  finally show ?thesis .
qed

section \<open>Examples\<close>

text \<open>
  The two scenarios of the specification, run through every variant, and a call with
  bounds outside the array, which leaves properties at negative indices.
\<close>

lemma example_unsorted:
  "quickSort_default (array_of [64, 34, 25, 12, 22, 11, 90 :: int])
     = array_of [11, 12, 22, 25, 34, 64, 90]"
  "fst (randomizedQuickSort_default (\<lambda>n. 1 / 3) (array_of [64, 34, 25, 12, 22, 11, 90 :: int], 0))
     = array_of [11, 12, 22, 25, 34, 64, 90]"
  "medianOfThreeQuickSort_default (array_of [64, 34, 25, 12, 22, 11, 90 :: int])
     = array_of [11, 12, 22, 25, 34, 64, 90]"
  "iterativeQuickSort (array_of [64, 34, 25, 12, 22, 11, 90 :: int])
     = array_of [11, 12, 22, 25, 34, 64, 90]"
  "threeWayQuickSort_default (array_of [64, 34, 25, 12, 22, 11, 90 :: int])
     = array_of [11, 12, 22, 25, 34, 64, 90]"
  "isSorted (array_of [11, 12, 22, 25, 34, 64, 90 :: int])"
  "\<not> isSorted (array_of [64, 34, 25, 12, 22, 11, 90 :: int])"
  by code_simp+

lemma example_reversed:
  "quickSort_default (array_of [5, 4, 3, 2, 1 :: int]) = array_of [1, 2, 3, 4, 5]"
  "fst (randomizedQuickSort_default (\<lambda>n. 1 / 3) (array_of [5, 4, 3, 2, 1 :: int], 0))
     = array_of [1, 2, 3, 4, 5]"
  "medianOfThreeQuickSort_default (array_of [5, 4, 3, 2, 1 :: int]) = array_of [1, 2, 3, 4, 5]"
  "iterativeQuickSort (array_of [5, 4, 3, 2, 1 :: int]) = array_of [1, 2, 3, 4, 5]"
  "threeWayQuickSort_default (array_of [5, 4, 3, 2, 1 :: int]) = array_of [1, 2, 3, 4, 5]"
  by code_simp+

lemma example_out_of_range:
  "quickSort (array_of [2, 3, 1 :: int]) (- 2) 2
     = \<lparr>elems = [None, Some 2, Some 3], props = [(- 1, None), (- 2, Some 1)]\<rparr>"
  by code_simp

section \<open>Properties of the specification\<close>

text \<open>
  \<^bold>\<open>C1.\<close> For every finite sequence \<open>xs\<close> of numbers, each sort variant called with the
  default bounds on the array \<open>xs\<close> returns an array of numbers \<open>ys\<close>, without further
  properties, that has the same multiset of elements as \<open>xs\<close> and is non-descending. For
  \<^verbatim>\<open>randomizedQuickSort\<close> this holds for every sequence \<open>rnd\<close> of results of
  \<^verbatim>\<open>Math.random()\<close> in \<open>[0, 1)\<close> and from any number \<open>n\<close> of earlier calls.
\<close>

theorem sort_variants_sorted_permutation:
  fixes xs :: "'a::linorder list"
  assumes "\<forall>n. 0 \<le> rnd n \<and> rnd n < 1"
  shows "(\<exists>ys. quickSort_default (array_of xs) = array_of ys
            \<and> mset ys = mset xs \<and> nondescending ys)
    \<and> (\<exists>ys. fst (randomizedQuickSort_default rnd (array_of xs, n)) = array_of ys
            \<and> mset ys = mset xs \<and> nondescending ys)
    \<and> (\<exists>ys. medianOfThreeQuickSort_default (array_of xs) = array_of ys
            \<and> mset ys = mset xs \<and> nondescending ys)
    \<and> (\<exists>ys. iterativeQuickSort (array_of xs) = array_of ys
            \<and> mset ys = mset xs \<and> nondescending ys)
    \<and> (\<exists>ys. threeWayQuickSort_default (array_of xs) = array_of ys
            \<and> mset ys = mset xs \<and> nondescending ys)"
proof -
  have e: "elems (array_of xs) = map Some xs"
    by (simp add: array_of_def)
  have "quickSort_default (array_of xs) = array_of (sort xs)"
    using quickSort_default_sorts [OF e] by (simp only: array_of_sorted)
  moreover have "fst (randomizedQuickSort_default rnd (array_of xs, n)) = array_of (sort xs)"
    using randomizedQuickSort_default_sorts [OF assms e] by (simp only: array_of_sorted)
  moreover have "medianOfThreeQuickSort_default (array_of xs) = array_of (sort xs)"
    using medianOfThreeQuickSort_default_sorts [OF e] by (simp only: array_of_sorted)
  moreover have "iterativeQuickSort (array_of xs) = array_of (sort xs)"
    using iterativeQuickSort_sorts [OF e] by (simp only: array_of_sorted)
  moreover have "threeWayQuickSort_default (array_of xs) = array_of (sort xs)"
    using threeWayQuickSort_default_sorts [OF e] by (simp only: array_of_sorted)
  ultimately show ?thesis
    using sort_is_sorted_permutation [of xs] by metis
qed

theorem sort_variants_sorted_permutation_witness:
  "(\<forall>n. 0 \<le> (\<lambda>n. 1 / 2 :: real) n \<and> (\<lambda>n. 1 / 2 :: real) n < 1)
    \<and> (\<exists>ys. quickSort_default (array_of [64, 34, 25, 12, 22, 11, 90 :: int]) = array_of ys
            \<and> mset ys = mset [64, 34, 25, 12, 22, 11, 90] \<and> nondescending ys)
    \<and> (\<exists>ys. fst (randomizedQuickSort_default (\<lambda>n. 1 / 2)
                  (array_of [64, 34, 25, 12, 22, 11, 90 :: int], 0)) = array_of ys
            \<and> mset ys = mset [64, 34, 25, 12, 22, 11, 90] \<and> nondescending ys)
    \<and> (\<exists>ys. medianOfThreeQuickSort_default (array_of [64, 34, 25, 12, 22, 11, 90 :: int]) = array_of ys
            \<and> mset ys = mset [64, 34, 25, 12, 22, 11, 90] \<and> nondescending ys)
    \<and> (\<exists>ys. iterativeQuickSort (array_of [64, 34, 25, 12, 22, 11, 90 :: int]) = array_of ys
            \<and> mset ys = mset [64, 34, 25, 12, 22, 11, 90] \<and> nondescending ys)
    \<and> (\<exists>ys. threeWayQuickSort_default (array_of [64, 34, 25, 12, 22, 11, 90 :: int]) = array_of ys
            \<and> mset ys = mset [64, 34, 25, 12, 22, 11, 90] \<and> nondescending ys)"
proof -
  have h: "\<forall>n. 0 \<le> (\<lambda>n. 1 / 2 :: real) n \<and> (\<lambda>n. 1 / 2 :: real) n < 1"
    by simp
  show ?thesis
    using h sort_variants_sorted_permutation [OF h, of "[64, 34, 25, 12, 22, 11, 90 :: int]" 0]
    by blast
qed

text \<open>
  \<^bold>\<open>C2.\<close> For an array of numbers and bounds \<open>0 \<le> low \<le> high < length\<close>, the Lomuto
  \<^verbatim>\<open>partition(arr, low, high)\<close> returns an index \<open>p\<close> with \<open>low \<le> p \<le> high\<close> such that
  afterwards \<open>arr[p]\<close> is the pivot (the original \<open>arr[high]\<close>), every element at an index
  in \<open>[low, p - 1]\<close> is at most the pivot, every element at an index in \<open>[p, high]\<close> is at
  least the pivot, the range \<open>[low, high]\<close> holds a permutation of its original contents,
  and the pivot is at its final sorted position: sorting the range puts the pivot at
  offset \<open>p - low\<close>.
\<close>

theorem partition_lomuto:
  assumes "numeric arr" "0 \<le> low" "low \<le> high" "high < len arr"
    and "partition arr low high = (arr', p)"
  shows "low \<le> p \<and> p \<le> high
    \<and> get arr' p = get arr high
    \<and> (\<forall>k. low \<le> k \<and> k \<le> p - 1 \<longrightarrow> js_le (get arr' k) (get arr high))
    \<and> (\<forall>k. p \<le> k \<and> k \<le> high \<longrightarrow> js_le (get arr high) (get arr' k))
    \<and> numeric arr'
    \<and> mset (slice (nums arr') low high) = mset (slice (nums arr) low high)
    \<and> Some (sort (slice (nums arr') low high) ! nat (p - low)) = get arr high"
proof -
  have spec: "low \<le> p" "p \<le> high" "get arr' p = get arr high"
    "\<forall>k. low \<le> k \<and> k < p \<longrightarrow> js_le (get arr' k) (get arr high)"
    "\<forall>k. p < k \<and> k \<le> high \<longrightarrow> js_lt (get arr high) (get arr' k)"
    using partition_spec [OF assms(2,3,4,1,5)] by simp_all
  obtain L G pv where seg: "slice (nums arr') low high = L @ pv # G"
    "mset (L @ pv # G) = mset (slice (nums arr) low high)"
    "get arr high = Some pv" "p = low + int (length L)" "numeric arr'"
    "\<forall>x\<in>set L. x \<le> pv" "\<forall>x\<in>set G. pv < x"
    by (rule partition_segment_nums [OF assms])
  have "\<forall>k. p \<le> k \<and> k \<le> high \<longrightarrow> js_le (get arr high) (get arr' k)"
  proof (intro allI impI)
    fix k assume "p \<le> k \<and> k \<le> high"
    then consider "k = p" | "p < k \<and> k \<le> high" by linarith
    then show "js_le (get arr high) (get arr' k)"
    proof cases
      case 1
      then show ?thesis using spec(3) seg(3) by simp
    next
      case 2
      then show ?thesis using spec(5) js_lt_le by blast
    qed
  qed
  moreover have "\<forall>k. low \<le> k \<and> k \<le> p - 1 \<longrightarrow> js_le (get arr' k) (get arr high)"
    using spec(4) by simp
  moreover have "sort (L @ pv # G) = sort L @ pv # sort G"
    using seg(6,7) by (intro sort_split [of L pv G]) auto
  then have "sort (slice (nums arr') low high) ! nat (p - low) = pv"
    using seg(1,4) by (simp add: nth_append)
  ultimately show ?thesis
    using spec(1-3) seg(1,2,3,5) by simp
qed

theorem partition_lomuto_witness:
  "numeric (array_of [7, 3, 8, 1, 5, 4, 0 :: int]) \<and> (0::int) \<le> 1 \<and> (1::int) \<le> 5
    \<and> 5 < len (array_of [7, 3, 8, 1, 5, 4, 0 :: int])
    \<and> partition (array_of [7, 3, 8, 1, 5, 4, 0 :: int]) 1 5 = (array_of [7, 3, 1, 4, 5, 8, 0], 3)
    \<and> (1::int) \<le> 3 \<and> (3::int) \<le> 5
    \<and> get (array_of [7, 3, 1, 4, 5, 8, 0 :: int]) 3 = get (array_of [7, 3, 8, 1, 5, 4, 0]) 5
    \<and> js_le (get (array_of [7, 3, 1, 4, 5, 8, 0 :: int]) 1) (get (array_of [7, 3, 8, 1, 5, 4, 0]) 5)
    \<and> js_le (get (array_of [7, 3, 1, 4, 5, 8, 0 :: int]) 2) (get (array_of [7, 3, 8, 1, 5, 4, 0]) 5)
    \<and> js_le (get (array_of [7, 3, 8, 1, 5, 4, 0 :: int]) 5) (get (array_of [7, 3, 1, 4, 5, 8, 0]) 3)
    \<and> js_le (get (array_of [7, 3, 8, 1, 5, 4, 0 :: int]) 5) (get (array_of [7, 3, 1, 4, 5, 8, 0]) 4)
    \<and> js_le (get (array_of [7, 3, 8, 1, 5, 4, 0 :: int]) 5) (get (array_of [7, 3, 1, 4, 5, 8, 0]) 5)
    \<and> numeric (array_of [7, 3, 1, 4, 5, 8, 0 :: int])
    \<and> mset (slice (nums (array_of [7, 3, 1, 4, 5, 8, 0 :: int])) 1 5)
        = mset (slice (nums (array_of [7, 3, 8, 1, 5, 4, 0])) 1 5)
    \<and> Some (sort (slice (nums (array_of [7, 3, 1, 4, 5, 8, 0 :: int])) 1 5) ! nat (3 - 1))
        = get (array_of [7, 3, 8, 1, 5, 4, 0]) 5"
proof -
  have a: "numeric (array_of [7, 3, 8, 1, 5, 4, 0 :: int])"
    by (simp add: numeric_def array_of_def)
  have b: "(0::int) \<le> 1" "(1::int) \<le> 5"
    by simp_all
  have c: "5 < len (array_of [7, 3, 8, 1, 5, 4, 0 :: int])"
    by (simp add: len_def array_of_def)
  have e: "partition (array_of [7, 3, 8, 1, 5, 4, 0 :: int]) 1 5 = (array_of [7, 3, 1, 4, 5, 8, 0], 3)"
    by code_simp
  note t = partition_lomuto [OF a b c e]
  have k: "(1::int) \<le> 1 \<and> (1::int) \<le> 3 - 1" "(1::int) \<le> 2 \<and> (2::int) \<le> 3 - 1"
    "(3::int) \<le> 3 \<and> (3::int) \<le> 5" "(3::int) \<le> 4 \<and> (4::int) \<le> 5"
    "(3::int) \<le> 5 \<and> (5::int) \<le> 5"
    by simp_all
  show ?thesis
    using a b c e t k by blast
qed

text \<open>
  \<^bold>\<open>C3.\<close> On every array of numbers the variants return the same final, sorted array:
  the recursive \<^verbatim>\<open>quickSort\<close> returns the input array with its elements replaced by the
  sorted list of its numbers (a non-descending list with the same multiset of elements),
  and \<^verbatim>\<open>iterativeQuickSort\<close>, \<^verbatim>\<open>randomizedQuickSort\<close> (for every sequence of random
  results in \<open>[0, 1)\<close>), \<^verbatim>\<open>medianOfThreeQuickSort\<close> and \<^verbatim>\<open>threeWayQuickSort\<close> each return
  exactly the array that \<^verbatim>\<open>quickSort\<close> returns on the same initial array.
\<close>

theorem sort_variants_agree:
  assumes "\<forall>n. 0 \<le> rnd n \<and> rnd n < 1" and "numeric arr"
  shows "quickSort_default arr = arr\<lparr>elems := map Some (sort (nums arr))\<rparr>
    \<and> mset (nums (quickSort_default arr)) = mset (nums arr)
    \<and> nondescending (nums (quickSort_default arr))
    \<and> iterativeQuickSort arr = quickSort_default arr
    \<and> fst (randomizedQuickSort_default rnd (arr, n)) = quickSort_default arr
    \<and> medianOfThreeQuickSort_default arr = quickSort_default arr
    \<and> threeWayQuickSort_default arr = quickSort_default arr"
proof -
  have e: "elems arr = map Some (nums arr)"
    using assms(2) by (rule numeric_elems)
  have q: "quickSort_default arr = arr\<lparr>elems := map Some (sort (nums arr))\<rparr>"
    using e by (rule quickSort_default_sorts)
  have "elems (quickSort_default arr) = map Some (sort (nums arr))"
    unfolding q by simp
  then have n: "nums (quickSort_default arr) = sort (nums arr)"
    by (rule nums_map_Some)
  have others: "iterativeQuickSort arr = quickSort_default arr
    \<and> fst (randomizedQuickSort_default rnd (arr, n)) = quickSort_default arr
    \<and> medianOfThreeQuickSort_default arr = quickSort_default arr
    \<and> threeWayQuickSort_default arr = quickSort_default arr"
    by (simp only: quickSort_default_sorts [OF e] iterativeQuickSort_sorts [OF e]
        randomizedQuickSort_default_sorts [OF assms(1) e]
        medianOfThreeQuickSort_default_sorts [OF e] threeWayQuickSort_default_sorts [OF e])
  have "mset (nums (quickSort_default arr)) = mset (nums arr)"
    "nondescending (nums (quickSort_default arr))"
    unfolding n using sort_is_sorted_permutation [of "nums arr"] by simp_all
  with q others show ?thesis
    by (intro conjI) simp_all
qed

theorem sort_variants_agree_witness:
  "(\<forall>n. 0 \<le> (\<lambda>n. 0 :: real) n \<and> (\<lambda>n. 0 :: real) n < 1)
    \<and> numeric (array_of [5, 4, 3, 2, 1 :: int])
    \<and> quickSort_default (array_of [5, 4, 3, 2, 1 :: int]) = array_of [1, 2, 3, 4, 5]
    \<and> quickSort_default (array_of [5, 4, 3, 2, 1 :: int])
        = (array_of [5, 4, 3, 2, 1])\<lparr>elems := map Some (sort (nums (array_of [5, 4, 3, 2, 1])))\<rparr>
    \<and> mset (nums (quickSort_default (array_of [5, 4, 3, 2, 1 :: int])))
        = mset (nums (array_of [5, 4, 3, 2, 1]))
    \<and> nondescending (nums (quickSort_default (array_of [5, 4, 3, 2, 1 :: int])))
    \<and> iterativeQuickSort (array_of [5, 4, 3, 2, 1 :: int])
        = quickSort_default (array_of [5, 4, 3, 2, 1])
    \<and> fst (randomizedQuickSort_default (\<lambda>n. 0) (array_of [5, 4, 3, 2, 1 :: int], 0))
        = quickSort_default (array_of [5, 4, 3, 2, 1])
    \<and> medianOfThreeQuickSort_default (array_of [5, 4, 3, 2, 1 :: int])
        = quickSort_default (array_of [5, 4, 3, 2, 1])
    \<and> threeWayQuickSort_default (array_of [5, 4, 3, 2, 1 :: int])
        = quickSort_default (array_of [5, 4, 3, 2, 1])"
proof -
  have h: "\<forall>n. 0 \<le> (\<lambda>n. 0 :: real) n \<and> (\<lambda>n. 0 :: real) n < 1"
    by simp
  have m: "numeric (array_of [5, 4, 3, 2, 1 :: int])"
    by (simp add: numeric_def array_of_def)
  have v: "quickSort_default (array_of [5, 4, 3, 2, 1 :: int]) = array_of [1, 2, 3, 4, 5]"
    by code_simp
  show ?thesis
    using h m v sort_variants_agree [OF h m, of 0] by blast
qed

text \<open>
  \<^bold>\<open>C4.\<close> Every sort operation terminates on every input: each argument (any array, any
  bounds, any sequence of random results, any stack) lies in the domain of the
  recursion, that is, in the well-founded part of its call relation. The recursive
  variants decrease \<open>high - low\<close>; the iterative loop decreases \<open>pending\<close> of its stack; the
  partition loops decrease the distance between their scan index and its bound.
\<close>

theorem sorts_terminate:
  fixes arr :: "'a::linorder jsarray"
  shows "quickSort_dom (arr, low, high)
    \<and> randomizedQuickSort_dom (rnd, (arr, n), low, high)
    \<and> medianOfThreeQuickSort_dom (arr, low, high)
    \<and> iterative_loop_dom (arr, stack)
    \<and> threeWayQuickSort_dom (arr, low, high)
    \<and> partition_loop_dom (arr, pivot, high, i, j)
    \<and> threeWay_loop_dom (arr, pivot, lt, i, gt)"
  using quickSort_total [where 'a = 'a] randomizedQuickSort_total [where 'a = 'a]
    medianOfThreeQuickSort_total [where 'a = 'a] iterative_loop_total [where 'a = 'a]
    threeWayQuickSort_total [where 'a = 'a] partition_loop_total [where 'a = 'a]
    threeWay_loop_total [where 'a = 'a]
  by blast

text \<open>
  \<^bold>\<open>C5.\<close> For an array of numbers and bounds \<open>0 \<le> low < high < length\<close>,
  \<^verbatim>\<open>hoarePartition(arr, low, high)\<close>, whose pivot is the original \<open>arr[low]\<close>, returns a split
  index \<open>j\<close> with \<open>low \<le> j < high\<close> such that afterwards every element at an index in
  \<open>[low, j]\<close> is at most the pivot, every element at an index in \<open>[j + 1, high]\<close> is at
  least the pivot, and the range \<open>[low, high]\<close> holds a permutation of its original
  contents.
\<close>

theorem hoarePartition_split:
  assumes "numeric arr" "0 \<le> low" "low < high" "high < len arr"
    and "hoarePartition arr low high = (arr', j)"
  shows "low \<le> j \<and> j < high
    \<and> (\<forall>k. low \<le> k \<and> k \<le> j \<longrightarrow> js_le (get arr' k) (get arr low))
    \<and> (\<forall>k. j + 1 \<le> k \<and> k \<le> high \<longrightarrow> js_le (get arr low) (get arr' k))
    \<and> numeric arr'
    \<and> mset (slice (nums arr') low high) = mset (slice (nums arr) low high)"
proof -
  have le: "low \<le> high"
    using assms(3) by simp
  have spec: "len arr' = len arr" "props arr' = props arr"
    "mset (elems arr') = mset (elems arr)"
    "\<forall>m. m < low \<or> high < m \<longrightarrow> get arr' m = get arr m"
    "low \<le> j" "j < high"
    "\<forall>m. low \<le> m \<and> m \<le> j \<longrightarrow> js_le (get arr' m) (get arr low)"
    "\<forall>m. j < m \<and> m \<le> high \<longrightarrow> js_le (get arr low) (get arr' m)"
    using hoarePartition_spec [OF assms(1,2) le assms(4,5)] assms(3) by simp_all
  have "\<forall>k. j + 1 \<le> k \<and> k \<le> high \<longrightarrow> js_le (get arr low) (get arr' k)"
    using spec(8) by simp
  then show ?thesis
    using spec(5-7) frame_slice_mset [OF assms(1,2) le assms(4) spec(1-4)] by simp
qed

theorem hoarePartition_split_witness:
  "numeric (array_of [7, 3, 8, 3, 1, 5, 3, 0 :: int]) \<and> (0::int) \<le> 1 \<and> (1::int) < 6
    \<and> 6 < len (array_of [7, 3, 8, 3, 1, 5, 3, 0 :: int])
    \<and> hoarePartition (array_of [7, 3, 8, 3, 1, 5, 3, 0 :: int]) 1 6
        = (array_of [7, 3, 1, 3, 8, 5, 3, 0], 3)
    \<and> (1::int) \<le> 3 \<and> (3::int) < 6
    \<and> js_le (get (array_of [7, 3, 1, 3, 8, 5, 3, 0 :: int]) 1)
          (get (array_of [7, 3, 8, 3, 1, 5, 3, 0]) 1)
    \<and> js_le (get (array_of [7, 3, 1, 3, 8, 5, 3, 0 :: int]) 2)
          (get (array_of [7, 3, 8, 3, 1, 5, 3, 0]) 1)
    \<and> js_le (get (array_of [7, 3, 1, 3, 8, 5, 3, 0 :: int]) 3)
          (get (array_of [7, 3, 8, 3, 1, 5, 3, 0]) 1)
    \<and> js_le (get (array_of [7, 3, 8, 3, 1, 5, 3, 0 :: int]) 1)
          (get (array_of [7, 3, 1, 3, 8, 5, 3, 0]) 4)
    \<and> js_le (get (array_of [7, 3, 8, 3, 1, 5, 3, 0 :: int]) 1)
          (get (array_of [7, 3, 1, 3, 8, 5, 3, 0]) 5)
    \<and> js_le (get (array_of [7, 3, 8, 3, 1, 5, 3, 0 :: int]) 1)
          (get (array_of [7, 3, 1, 3, 8, 5, 3, 0]) 6)
    \<and> numeric (array_of [7, 3, 1, 3, 8, 5, 3, 0 :: int])
    \<and> mset (slice (nums (array_of [7, 3, 1, 3, 8, 5, 3, 0 :: int])) 1 6)
        = mset (slice (nums (array_of [7, 3, 8, 3, 1, 5, 3, 0])) 1 6)"
proof -
  have a: "numeric (array_of [7, 3, 8, 3, 1, 5, 3, 0 :: int])"
    by (simp add: numeric_def array_of_def)
  have b: "(0::int) \<le> 1" "(1::int) < 6"
    by simp_all
  have c: "6 < len (array_of [7, 3, 8, 3, 1, 5, 3, 0 :: int])"
    by (simp add: len_def array_of_def)
  have e: "hoarePartition (array_of [7, 3, 8, 3, 1, 5, 3, 0 :: int]) 1 6
        = (array_of [7, 3, 1, 3, 8, 5, 3, 0], 3)"
    by code_simp
  note t = hoarePartition_split [OF a b c e]
  have k: "(1::int) \<le> 1 \<and> (1::int) \<le> 3" "(1::int) \<le> 2 \<and> (2::int) \<le> 3"
    "(1::int) \<le> 3 \<and> (3::int) \<le> 3"
    "(3::int) + 1 \<le> 4 \<and> (4::int) \<le> 6" "(3::int) + 1 \<le> 5 \<and> (5::int) \<le> 6"
    "(3::int) + 1 \<le> 6 \<and> (6::int) \<le> 6"
    by simp_all
  show ?thesis
    using a b c e t k by blast
qed

text \<open>
  \<^bold>\<open>C6.\<close> The documentation of \<^verbatim>\<open>hoarePartition\<close> promises the pivot index after
  partitioning, as its sibling \<^verbatim>\<open>partition\<close> returns it, but the pivot is not at the
  index the function returns: on \<open>[2, 3, 1]\<close> with bounds \<open>0\<close> and \<open>2\<close> the pivot is \<open>2\<close>,
  \<^verbatim>\<open>hoarePartition\<close> leaves \<open>[1, 3, 2]\<close> and returns \<open>0\<close>, where the array holds \<open>1\<close>; the
  pivot is at index \<open>2\<close>, and its final sorted position is index \<open>1\<close>. On the same input
  \<^verbatim>\<open>partition\<close> returns \<open>0\<close> with its pivot \<open>1\<close> at index \<open>0\<close>.
\<close>

theorem hoarePartition_pivot_not_at_returned_index:
  "numeric (array_of [2, 3, 1 :: int]) \<and> (0::int) \<le> 0 \<and> (0::int) < 2
    \<and> 2 < len (array_of [2, 3, 1 :: int])
    \<and> get (array_of [2, 3, 1 :: int]) 0 = Some 2
    \<and> hoarePartition (array_of [2, 3, 1 :: int]) 0 2 = (array_of [1, 3, 2], 0)
    \<and> get (array_of [1, 3, 2 :: int]) 0 = Some 1
    \<and> get (array_of [1, 3, 2 :: int]) 0 \<noteq> get (array_of [2, 3, 1]) 0
    \<and> get (array_of [1, 3, 2 :: int]) 2 = get (array_of [2, 3, 1]) 0
    \<and> sort (slice (nums (array_of [1, 3, 2 :: int])) 0 2) = [1, 2, 3]
    \<and> partition (array_of [2, 3, 1 :: int]) 0 2 = (array_of [1, 3, 2], 0)
    \<and> get (array_of [1, 3, 2 :: int]) 0 = get (array_of [2, 3, 1]) 2"
  by code_simp



text \<open>
  \<^bold>\<open>C8.\<close> For an array of numbers and bounds \<open>0 \<le> low \<le> high < length\<close>,
  \<^verbatim>\<open>quickSort(arr, low, high)\<close> returns the array with the same length and properties, in
  which the range \<open>[low, high]\<close> holds a non-descending permutation of the numbers it held
  before, and every index outside \<open>[low, high]\<close> reads as it did before the call.
\<close>

theorem quickSort_range:
  assumes "numeric arr" "0 \<le> low" "low \<le> high" "high < len arr"
  shows "len (quickSort arr low high) = len arr
    \<and> props (quickSort arr low high) = props arr
    \<and> numeric (quickSort arr low high)
    \<and> mset (slice (nums (quickSort arr low high)) low high) = mset (slice (nums arr) low high)
    \<and> nondescending (slice (nums (quickSort arr low high)) low high)
    \<and> (\<forall>k. k < low \<or> high < k \<longrightarrow> get (quickSort arr low high) k = get arr k)"
proof -
  define A where "A = take (nat low) (nums arr)"
  define R where "R = slice (nums arr) low high"
  define B where "B = drop (nat (high + 1)) (nums arr)"
  have seg: "elems arr = map Some (A @ R @ B)" "low = int (length A)"
    "high = int (length A) + int (length R) - 1"
    unfolding A_def R_def B_def using assms by (intro segment_nums; simp)+
  have res: "quickSort arr low high = arr\<lparr>elems := map Some (A @ sort R @ B)\<rparr>"
    using seg by (rule quickSort_segment)
  have n: "nums (quickSort arr low high) = A @ sort R @ B"
    unfolding res by (rule nums_map_Some) simp
  have "slice (nums (quickSort arr low high)) low high = sort R"
    unfolding n using seg(2,3) by (intro slice_segment) simp_all
  moreover have "\<forall>k. k < low \<or> high < k \<longrightarrow> get (quickSort arr low high) k = get arr k"
  proof (intro allI impI)
    fix k assume "k < low \<or> high < k"
    then have "k < int (length A) \<or> int (length A) + int (length R) \<le> k"
      using seg(2,3) by auto
    then show "get (quickSort arr low high) k = get arr k"
      unfolding res
      by (intro get_segment_frame [of arr A R B _ "sort R"]) (simp_all add: seg(1))
  qed
  moreover have "numeric (quickSort arr low high)"
    unfolding res by (rule numeric_map_Some [of _ "A @ sort R @ B"]) simp
  moreover have "len (quickSort arr low high) = len arr"
    unfolding res by (simp add: len_def seg(1))
  ultimately show ?thesis
    by (simp add: res R_def [symmetric] nondescending_sorted)
qed

theorem quickSort_range_witness:
  "numeric (array_of [9, 5, 4, 3, 1, 0 :: int]) \<and> (0::int) \<le> 1 \<and> (1::int) \<le> 3
    \<and> 3 < len (array_of [9, 5, 4, 3, 1, 0 :: int])
    \<and> len (quickSort (array_of [9, 5, 4, 3, 1, 0 :: int]) 1 3) = len (array_of [9, 5, 4, 3, 1, 0 :: int])
    \<and> props (quickSort (array_of [9, 5, 4, 3, 1, 0 :: int]) 1 3) = props (array_of [9, 5, 4, 3, 1, 0 :: int])
    \<and> numeric (quickSort (array_of [9, 5, 4, 3, 1, 0 :: int]) 1 3)
    \<and> mset (slice (nums (quickSort (array_of [9, 5, 4, 3, 1, 0 :: int]) 1 3)) 1 3)
        = mset (slice (nums (array_of [9, 5, 4, 3, 1, 0 :: int])) 1 3)
    \<and> nondescending (slice (nums (quickSort (array_of [9, 5, 4, 3, 1, 0 :: int]) 1 3)) 1 3)
    \<and> get (quickSort (array_of [9, 5, 4, 3, 1, 0 :: int]) 1 3) 0
        = get (array_of [9, 5, 4, 3, 1, 0 :: int]) 0
    \<and> get (quickSort (array_of [9, 5, 4, 3, 1, 0 :: int]) 1 3) 4
        = get (array_of [9, 5, 4, 3, 1, 0 :: int]) 4"
proof -
  have a: "numeric (array_of [9, 5, 4, 3, 1, 0 :: int])"
    by (simp add: numeric_def array_of_def)
  have b: "(0::int) \<le> 1" "(1::int) \<le> 3"
    by simp_all
  have c: "3 < len (array_of [9, 5, 4, 3, 1, 0 :: int])"
    by (simp add: len_def array_of_def)
  have d: "(0::int) < 1 \<or> (3::int) < 0" "(4::int) < 1 \<or> (3::int) < 4"
    by simp_all
  show ?thesis
    using a b c d quickSort_range [OF a b c] by blast
qed

text \<open>
  \<^bold>\<open>C9.\<close> On an array of length zero or one, every sort variant called with the default
  bounds returns the array as it was given; the randomized variant does not call
  \<^verbatim>\<open>Math.random()\<close>. The functions are total and have no error result.
\<close>

theorem short_arrays_unchanged:
  assumes "length (elems arr) \<le> 1"
  shows "quickSort_default arr = arr
    \<and> randomizedQuickSort_default rnd (arr, n) = (arr, n)
    \<and> medianOfThreeQuickSort_default arr = arr
    \<and> iterativeQuickSort arr = arr
    \<and> threeWayQuickSort_default arr = arr"
proof -
  note s = short_range [OF assms]
  have "quickSort_default arr = arr"
    unfolding quickSort_default_def using s by (subst quickSort.simps) simp
  moreover have "randomizedQuickSort_default rnd (arr, n) = (arr, n)"
    unfolding randomizedQuickSort_default_def using s
    by (subst randomizedQuickSort.simps) simp
  moreover have "medianOfThreeQuickSort_default arr = arr"
    unfolding medianOfThreeQuickSort_default_def using s
    by (subst medianOfThreeQuickSort.simps) simp
  moreover have "iterativeQuickSort arr = arr"
    using iterative_loop_skip [OF s, of arr "[]"]
    by (simp add: iterativeQuickSort_def push_def iterative_loop_empty)
  moreover have "threeWayQuickSort_default arr = arr"
    unfolding threeWayQuickSort_default_def using s
    by (subst threeWayQuickSort.simps) simp
  ultimately show ?thesis
    by simp
qed

theorem short_arrays_unchanged_witness:
  "(length (elems (array_of ([] :: int list))) \<le> 1
    \<and> quickSort_default (array_of ([] :: int list)) = array_of []
    \<and> randomizedQuickSort_default (\<lambda>n. 0) (array_of ([] :: int list), 0) = (array_of [], 0)
    \<and> medianOfThreeQuickSort_default (array_of ([] :: int list)) = array_of []
    \<and> iterativeQuickSort (array_of ([] :: int list)) = array_of []
    \<and> threeWayQuickSort_default (array_of ([] :: int list)) = array_of [])
  \<and> (length (elems (array_of [7 :: int])) \<le> 1
    \<and> quickSort_default (array_of [7 :: int]) = array_of [7]
    \<and> randomizedQuickSort_default (\<lambda>n. 0) (array_of [7 :: int], 0) = (array_of [7], 0)
    \<and> medianOfThreeQuickSort_default (array_of [7 :: int]) = array_of [7]
    \<and> iterativeQuickSort (array_of [7 :: int]) = array_of [7]
    \<and> threeWayQuickSort_default (array_of [7 :: int]) = array_of [7])"
proof -
  have e: "length (elems (array_of ([] :: int list))) \<le> 1"
    by (simp add: array_of_def)
  have o: "length (elems (array_of [7 :: int])) \<le> 1"
    by (simp add: array_of_def)
  show ?thesis
    using e o short_arrays_unchanged [OF e, of "\<lambda>n. 0" 0]
      short_arrays_unchanged [OF o, of "\<lambda>n. 0" 0]
    by blast
qed

text \<open>
  \<^bold>\<open>C10.\<close> For an array of numbers and bounds \<open>0 \<le> low \<le> high < length\<close>, every index that
  \<^verbatim>\<open>hoarePartition(arr, low, high)\<close> reads or writes (the read of the pivot, the reads of
  the two \<^verbatim>\<open>do\<close>-\<^verbatim>\<open>while\<close> scans, and the reads and writes of every swap) lies in
  \<open>[low, high]\<close>; the run with the log returns what \<^verbatim>\<open>hoarePartition\<close> returns.
\<close>

theorem hoarePartition_accesses_in_range:
  assumes "numeric arr" "0 \<le> low" "low \<le> high" "high < len arr"
  shows "list_all (\<lambda>m. low \<le> m \<and> m \<le> high) (snd (hoarePartition_log arr low high))
    \<and> fst (hoarePartition_log arr low high) = hoarePartition arr low high"
proof -
  have rl: "in_range arr low"
    using assms(2-4) by (simp add: in_range_def)
  obtain pv where pv: "get arr low = Some pv"
    using numeric_get [OF assms(1) rl] by blast
  obtain new where new: "snd (hoare_loop_log arr (Some pv) (low - 1) (high + 1) [low]) = [low] @ new"
    "list_all (\<lambda>m. low \<le> m \<and> m \<le> high) new"
    using hoare_loop_log_accesses [OF hoare_inv_initial [OF assms pv] refl, of "[low]"] by auto
  have "snd (hoarePartition_log arr low high) = low # new"
    using new(1) by (simp add: hoarePartition_log_def get_log_def pv)
  then show ?thesis
    using new(2) assms(3) by (simp add: hoarePartition_log_result)
qed

theorem hoarePartition_accesses_in_range_witness:
  "numeric (array_of [7, 3, 8, 3, 1, 5, 3, 0 :: int]) \<and> (0::int) \<le> 1 \<and> (1::int) \<le> 6
    \<and> 6 < len (array_of [7, 3, 8, 3, 1, 5, 3, 0 :: int])
    \<and> snd (hoarePartition_log (array_of [7, 3, 8, 3, 1, 5, 3, 0 :: int]) 1 6)
        = [1, 1, 6, 6, 1, 1, 6, 2, 5, 4, 4, 2, 2, 4, 3, 3]
    \<and> list_all (\<lambda>m. 1 \<le> m \<and> m \<le> 6)
          (snd (hoarePartition_log (array_of [7, 3, 8, 3, 1, 5, 3, 0 :: int]) 1 6))
    \<and> fst (hoarePartition_log (array_of [7, 3, 8, 3, 1, 5, 3, 0 :: int]) 1 6)
        = hoarePartition (array_of [7, 3, 8, 3, 1, 5, 3, 0]) 1 6"
proof -
  have a: "numeric (array_of [7, 3, 8, 3, 1, 5, 3, 0 :: int])"
    by (simp add: numeric_def array_of_def)
  have b: "(0::int) \<le> 1" "(1::int) \<le> 6"
    by simp_all
  have c: "6 < len (array_of [7, 3, 8, 3, 1, 5, 3, 0 :: int])"
    by (simp add: len_def array_of_def)
  have e: "snd (hoarePartition_log (array_of [7, 3, 8, 3, 1, 5, 3, 0 :: int]) 1 6)
        = [1, 1, 6, 6, 1, 1, 6, 2, 5, 4, 4, 2, 2, 4, 3, 3]"
    by code_simp
  show ?thesis
    using a b c e hoarePartition_accesses_in_range [OF a b c] by blast
qed

end
